theory Spec2Isabelle
  imports Complex_Main "HOL-Library.Multiset"
begin

section \<open>The rectangle primitive (class Box)\<close>

text \<open>
  Numbers are modelled as \<^typ>\<open>int\<close>: this is the integer fragment of the source,
  whose numbers are IEEE doubles. On integers below \<open>2^53\<close> the arithmetic of the source
  (\<open>+\<close>, \<open>-\<close>, \<open>*\<close>, comparisons, \<open>Math.min\<close>, \<open>Math.max\<close>) is exact and the model
  is the code. It is not the code on other inputs: on fractions the source rounds
  (\<open>0.6 + 1.1\<close> is \<open>1.7000000000000002\<close>, so \<open>left + width\<close> can exceed the right
  edge of a free box into which \<open>width\<close> fits), and on \<open>NaN\<close> (\<open>parseInt\<close> of an empty
  field) every comparison is false and \<open>Math.min\<close>, \<open>Math.max\<close> return \<open>NaN\<close>. The
  statements below that depend on the values of the numbers are therefore statements
  about integer inputs, and say so. The only division of the source is the one of the
  fullness ratio; its result is a \<open>jsnum\<close> (below), which keeps \<open>NaN\<close> and the
  infinities apart from the finite values.

  The getters \<open>top\<close> and \<open>id\<close> of the source are the fields \<open>topB\<close> and \<open>idB\<close> here
  (both names are constants of HOL). A box is a value: the engine never relies on the
  identity of a box beyond what the fields hold (placed boxes are clones, and the only
  fields mutated in place are \<open>mark\<close> and \<open>needRemove\<close>, which the model updates in
  the list that owns the box).
\<close>

record Box =
  width :: int
  height :: int
  topB :: int
  left :: int
  right :: int
  bottom :: int
  idB :: int
  mark :: int
  needRemove :: bool

text \<open>\<open>new Box(width, height, left, top, right, bottom, id, mark)\<close>; \<open>needRemove\<close> starts false.\<close>

definition newBox :: "int \<Rightarrow> int \<Rightarrow> int \<Rightarrow> int \<Rightarrow> int \<Rightarrow> int \<Rightarrow> int \<Rightarrow> int \<Rightarrow> Box" where
  "newBox w h l t r b i m =
     \<lparr>width = w, height = h, topB = t, left = l, right = r, bottom = b,
      idB = i, mark = m, needRemove = False\<rparr>"

definition createFromSize :: "int \<Rightarrow> int \<Rightarrow> int \<Rightarrow> int \<Rightarrow> Box" where
  "createFromSize w h i m = newBox w h 0 0 w h i m"

definition createFromCoord :: "int \<Rightarrow> int \<Rightarrow> int \<Rightarrow> int \<Rightarrow> int \<Rightarrow> int \<Rightarrow> Box" where
  "createFromCoord l t r b i m = newBox (r - l) (b - t) l t r b i m"

definition clone :: "Box \<Rightarrow> Box" where
  "clone a = newBox (width a) (height a) (left a) (topB a) (right a) (bottom a) (idB a) 0"

definition setCoord :: "int \<Rightarrow> int \<Rightarrow> int \<Rightarrow> int \<Rightarrow> Box \<Rightarrow> Box" where
  "setCoord l t r b a =
     a\<lparr>width := r - l, height := b - t, topB := t, left := l, right := r, bottom := b\<rparr>"

definition square :: "Box \<Rightarrow> int" where
  "square a = width a * height a"

definition isContained :: "Box \<Rightarrow> Box \<Rightarrow> bool" where
  "isContained a b \<longleftrightarrow>
     left a \<ge> left b \<and> topB a \<ge> topB b \<and> right a \<le> right b \<and> bottom a \<le> bottom b"

definition isTouched :: "Box \<Rightarrow> Box \<Rightarrow> bool" where
  "isTouched a b \<longleftrightarrow>
     right a > left b \<and> left a < right b \<and> bottom a > topB b \<and> topB a < bottom b"

definition isSeparated :: "Box \<Rightarrow> Box \<Rightarrow> bool" where
  "isSeparated a b \<longleftrightarrow>
     \<not> (left b \<ge> right a \<or> right b \<le> left a \<or> topB b \<ge> bottom a \<or> bottom b \<le> topB a)"

section \<open>The packing engine (class Packer)\<close>

text \<open>
  The value of the cache \<open>_fullness\<close>: a finite number, \<open>NaN\<close> (the quotient \<open>0 / 0\<close>)
  or an infinity (a non-zero number divided by zero).
\<close>

datatype jsnum = Fin rat | NaN | PosInf | NegInf

definition jsDiv :: "int \<Rightarrow> int \<Rightarrow> jsnum" where
  "jsDiv a b =
     (if b = 0 then (if a = 0 then NaN else if a > 0 then PosInf else NegInf)
      else Fin (of_int a / of_int b))"

text \<open>\<open>1 - x\<close> on such a value.\<close>

fun oneMinus :: "jsnum \<Rightarrow> jsnum" where
  "oneMinus (Fin r) = Fin (1 - r)"
| "oneMinus NaN = NaN"
| "oneMinus PosInf = NegInf"
| "oneMinus NegInf = PosInf"

definition BOTTOM_RIGHT_MARK :: int where
  "BOTTOM_RIGHT_MARK = 9007199254740991"

record Packer =
  boxes :: "Box list"
  packedBoxes :: "Box list"
  freeBoxes :: "Box list"
  badBoxes :: "Box list"
  notPlacedBoxes :: "Box list"
  isPrepared :: bool
  fullnessCache :: jsnum
  containerWidth :: int
  containerHeight :: int

text \<open>The constructor, with the field initialisers of the class.\<close>

definition newPacker :: "int \<Rightarrow> int \<Rightarrow> Packer" where
  "newPacker w h =
     \<lparr>boxes = [], packedBoxes = [], freeBoxes = [], badBoxes = [], notPlacedBoxes = [],
      isPrepared = False, fullnessCache = Fin (- 1), containerWidth = w, containerHeight = h\<rparr>"

definition resizeContainer :: "int \<Rightarrow> int \<Rightarrow> Packer \<Rightarrow> Packer" where
  "resizeContainer w h s = s\<lparr>containerWidth := w, containerHeight := h\<rparr>"

definition reset :: "Packer \<Rightarrow> Packer" where
  "reset s =
     s\<lparr>packedBoxes := [], freeBoxes := [], badBoxes := [], notPlacedBoxes := [],
       fullnessCache := Fin (- 1), isPrepared := False\<rparr>"

definition clear :: "Packer \<Rightarrow> Packer" where
  "clear s = reset (s\<lparr>boxes := []\<rparr>)"

definition addBox :: "int \<Rightarrow> int \<Rightarrow> int \<Rightarrow> Packer \<Rightarrow> Packer" where
  "addBox w h i s =
     s\<lparr>boxes := boxes s @ [createFromSize (min w h) (max w h) i 0], isPrepared := False\<rparr>"

text \<open>The test of \<open>filterBadBoxes\<close>: the box goes to \<open>badBoxes\<close> when it holds.\<close>

definition isBad :: "Packer \<Rightarrow> Box \<Rightarrow> bool" where
  "isBad s box \<longleftrightarrow>
     (width box > containerWidth s \<and> width box > containerHeight s) \<or>
     (height box > containerWidth s \<and> height box > containerHeight s) \<or>
     (width box \<le> 0 \<or> height box \<le> 0)"

text \<open>
  \<open>filterBadBoxes\<close> returns the boxes kept and pushes the others, in order, to
  \<open>badBoxes\<close>; the pair is the returned array and the engine after the pushes.
\<close>

definition filterBadBoxes :: "Box list \<Rightarrow> Packer \<Rightarrow> Box list \<times> Packer" where
  "filterBadBoxes bs s =
     (filter (\<lambda>box. \<not> isBad s box) bs,
      s\<lparr>badBoxes := badBoxes s @ filter (isBad s) bs\<rparr>)"

text \<open>
  The comparator of \<open>prepare\<close>, and \<open>Array.prototype.sort\<close> with it: the sort is stable,
  and the comparator is a consistent order on integers, so the result is the one of a
  stable insertion sort.
\<close>

definition compareBoxes :: "Box \<Rightarrow> Box \<Rightarrow> int" where
  "compareBoxes a b = (if width a = width b then height b - height a else width b - width a)"

fun insertSorted :: "Box \<Rightarrow> Box list \<Rightarrow> Box list" where
  "insertSorted x [] = [x]"
| "insertSorted x (y # ys) =
     (if compareBoxes x y \<le> 0 then x # y # ys else y # insertSorted x ys)"

definition sortBoxes :: "Box list \<Rightarrow> Box list" where
  "sortBoxes bs = foldr insertSorted bs []"

definition addFreeBox :: "int \<Rightarrow> int \<Rightarrow> int \<Rightarrow> int \<Rightarrow> Packer \<Rightarrow> Packer" where
  "addFreeBox l t r b s = s\<lparr>freeBoxes := freeBoxes s @ [createFromCoord l t r b 0 0]\<rparr>"

definition prepare :: "Packer \<Rightarrow> Packer" where
  "prepare s =
     (let s1 = reset s;
          (kept, s2) = filterBadBoxes (boxes s1) s1;
          s3 = s2\<lparr>boxes := sortBoxes kept\<rparr>;
          s4 = addFreeBox 0 0 (containerWidth s3) (containerHeight s3) s3
      in s4\<lparr>isPrepared := True\<rparr>)"

subsection \<open>Scoring a candidate position\<close>

definition commonIntervalLength :: "int \<Rightarrow> int \<Rightarrow> int \<Rightarrow> int \<Rightarrow> int" where
  "commonIntervalLength startA endA startB endB =
     (if endA < startB \<or> endB < startA then 0 else min endA endB - max startA startB)"

definition scoreStep :: "int \<Rightarrow> int \<Rightarrow> int \<Rightarrow> int \<Rightarrow> int \<Rightarrow> Box \<Rightarrow> int" where
  "scoreStep l t r b score box =
     (let score1 =
            (if left box = r \<or> right box = l
             then score + commonIntervalLength (topB box) (bottom box) t b else score)
      in if topB box = b \<or> bottom box = t
         then score1 + commonIntervalLength (left box) (right box) l r else score1)"

definition calculateScore :: "Packer \<Rightarrow> int \<Rightarrow> int \<Rightarrow> int \<Rightarrow> int \<Rightarrow> int" where
  "calculateScore s l t r b =
     (let score0 = (if l = 0 \<or> r = containerWidth s then b - t else 0);
          score1 = (if t = 0 \<or> b = containerHeight s then score0 + (r - l) else score0)
      in foldl (scoreStep l t r b) score1 (packedBoxes s))"

text \<open>
  One orientation of one free box in \<open>findBoxPosition\<close>: the state is the test box and
  \<open>bestScore\<close>.
\<close>

definition tryFit :: "Packer \<Rightarrow> Box \<Rightarrow> int \<Rightarrow> int \<Rightarrow> Box \<times> int \<Rightarrow> Box \<times> int" where
  "tryFit s freeBox w h st =
     (case st of (testBox, bestScore) \<Rightarrow>
        if width freeBox \<ge> w \<and> height freeBox \<ge> h then
          (let score = calculateScore s (left freeBox) (topB freeBox)
                         (left freeBox + w) (topB freeBox + h)
           in if score > bestScore
              then (setCoord (left freeBox) (topB freeBox) (left freeBox + w) (topB freeBox + h)
                      testBox, score)
              else st)
        else st)"

definition fitStep :: "Packer \<Rightarrow> Box \<Rightarrow> Box \<times> int \<Rightarrow> Box \<Rightarrow> Box \<times> int" where
  "fitStep s box st freeBox =
     tryFit s freeBox (height box) (width box) (tryFit s freeBox (width box) (height box) st)"

definition findBoxPosition :: "Packer \<Rightarrow> Box \<Rightarrow> Box \<Rightarrow> Box" where
  "findBoxPosition s box testBox =
     (case foldl (fitStep s box) (testBox\<lparr>mark := 0\<rparr>, - 1) (freeBoxes s) of
        (testBox', bestScore) \<Rightarrow> testBox'\<lparr>mark := bestScore, idB := idB box\<rparr>)"

subsection \<open>Committing a placement: splitting and pruning the free boxes\<close>

text \<open>
  \<open>splitFreeBox\<close> pushes up to four strips to \<open>freeBoxes\<close>; the model returns them in
  the order of the pushes.
\<close>

definition splitFreeBox :: "Box \<Rightarrow> Box \<Rightarrow> Box list" where
  "splitFreeBox freeBox box =
     (if topB box > topB freeBox \<and> topB box < bottom freeBox
      then [createFromCoord (left freeBox) (topB freeBox) (right freeBox) (topB box) 0 0] else []) @
     (if bottom box < bottom freeBox
      then [createFromCoord (left freeBox) (bottom box) (right freeBox) (bottom freeBox) 0 0] else []) @
     (if left box > left freeBox \<and> left box < right freeBox
      then [createFromCoord (left freeBox) (topB freeBox) (left box) (bottom freeBox) 0 0] else []) @
     (if right box < right freeBox
      then [createFromCoord (right box) (topB freeBox) (right freeBox) (bottom freeBox) 0 0] else [])"

lemma isSeparated_needRemove [simp]:
  "isSeparated (f\<lparr>needRemove := v\<rparr>) box = isSeparated f box"
  by (simp add: isSeparated_def)

lemma splitFreeBox_not_separated:
  "g \<in> set (splitFreeBox f box) \<Longrightarrow> \<not> isSeparated g box"
  by (auto simp: splitFreeBox_def isSeparated_def createFromCoord_def newBox_def
      split: if_splits)

lemma filter_splitFreeBox [simp]:
  "filter (\<lambda>g. isSeparated g box) (splitFreeBox f box) = []"
  by (simp add: filter_empty_conv splitFreeBox_not_separated)

text \<open>
  The first loop of \<open>addPackedBox\<close>: \<open>for (const freeBox of this.freeBoxes)\<close> walks the
  array by index and re-reads its length at every step, so it also visits the strips
  that \<open>splitFreeBox\<close> pushes while it runs. The loop ends because a strip is never
  split again.
\<close>

function splitLoop :: "Box \<Rightarrow> nat \<Rightarrow> Box list \<Rightarrow> Box list" where
  "splitLoop box i fs =
     (if i < length fs then
        (if isSeparated (fs ! i) box
         then splitLoop box (Suc i)
                ((fs @ splitFreeBox (fs ! i) box)[i := (fs ! i)\<lparr>needRemove := True\<rparr>])
         else splitLoop box (Suc i) fs)
      else fs)"
  by pat_completeness auto
termination
proof (relation "measures [\<lambda>(box, i, fs). length (filter (\<lambda>f. isSeparated f box) (drop i fs)),
                           \<lambda>(box, i, fs). length fs - i]", goal_cases)
  case 1
  show ?case by simp
next
  case (2 box i fs)
  then have "drop i fs = fs ! i # drop (Suc i) fs"
    by (simp add: Cons_nth_drop_Suc)
  with 2 show ?case
    by simp
next
  case (3 box i fs)
  then have "drop i fs = fs ! i # drop (Suc i) fs"
    by (simp add: Cons_nth_drop_Suc)
  with 3 show ?case
    by simp
qed

declare splitLoop.simps [simp del]

text \<open>
  The second loop of \<open>addPackedBox\<close>: the inner \<open>for\<close> over \<open>j\<close> (with its \<open>break\<close>), and
  the outer \<open>for\<close> over \<open>i\<close>.
\<close>

function pruneInner :: "nat \<Rightarrow> nat \<Rightarrow> Box list \<Rightarrow> Box list" where
  "pruneInner i j fs =
     (if j < length fs then
        (if needRemove (fs ! j) then pruneInner i (Suc j) fs
         else if isContained (fs ! i) (fs ! j) then fs[i := (fs ! i)\<lparr>needRemove := True\<rparr>]
         else if isContained (fs ! j) (fs ! i)
              then pruneInner i (Suc j) (fs[j := (fs ! j)\<lparr>needRemove := True\<rparr>])
              else pruneInner i (Suc j) fs)
      else fs)"
  by pat_completeness auto
termination
  by (relation "measure (\<lambda>(i, j, fs). length fs - j)") auto

declare pruneInner.simps [simp del]

lemma length_pruneInner [simp]: "length (pruneInner i j fs) = length fs"
  by (induction i j fs rule: pruneInner.induct) (subst pruneInner.simps, simp)

function pruneOuter :: "nat \<Rightarrow> Box list \<Rightarrow> Box list" where
  "pruneOuter i fs =
     (if Suc i < length fs then
        (if needRemove (fs ! i) then pruneOuter (Suc i) fs
         else pruneOuter (Suc i) (pruneInner i (Suc i) fs))
      else fs)"
  by pat_completeness auto
termination
  by (relation "measure (\<lambda>(i, fs). length fs - i)") auto

declare pruneOuter.simps [simp del]

definition addPackedBox :: "Box \<Rightarrow> Packer \<Rightarrow> Packer" where
  "addPackedBox box s =
     (let fs1 = splitLoop box 0 (freeBoxes s);
          fs2 = pruneOuter 0 fs1
      in s\<lparr>freeBoxes := filter (\<lambda>b. \<not> needRemove b) fs2,
           packedBoxes := packedBoxes s @ [box]\<rparr>)"

subsection \<open>The placement loop\<close>

text \<open>
  One step of the \<open>for\<close> loop of \<open>pack\<close> over the indices of \<open>boxes\<close>. The state is the
  shared \<open>testBox\<close>, \<open>bestScore\<close>, and \<open>bestBoxIndex\<close> with \<open>bestBox\<close>: the source sets
  the two together, so \<open>None\<close> stands for \<open>bestBoxIndex === -1\<close> (and \<open>bestBox\<close>
  undefined).
\<close>

definition scanStep ::
  "Packer \<Rightarrow> Box \<times> int \<times> (nat \<times> Box) option \<Rightarrow> nat \<Rightarrow> Box \<times> int \<times> (nat \<times> Box) option" where
  "scanStep s st i =
     (case st of (testBox, bestScore, best) \<Rightarrow>
        if needRemove (boxes s ! i) then st
        else (let testBox' = findBoxPosition s (boxes s ! i) testBox
              in if mark testBox' > bestScore
                 then (testBox', mark testBox', Some (i, clone testBox'))
                 else (testBox', bestScore, best)))"

definition scanBoxes :: "Packer \<Rightarrow> Box \<Rightarrow> Box \<times> int \<times> (nat \<times> Box) option" where
  "scanBoxes s testBox = foldl (scanStep s) (testBox, 0, None) [0..<length (boxes s)]"

lemma scan_foldl_index:
  "foldl (scanStep s) (tb, sc, best) is = (tb', sc', Some (i, bb)) \<Longrightarrow>
   best = Some (i, bb) \<or> (i \<in> set is \<and> \<not> needRemove (boxes s ! i))"
proof (induction "is" arbitrary: tb sc best)
  case Nil
  then show ?case by simp
next
  case (Cons k ks)
  obtain tb1 sc1 best1 where st: "scanStep s (tb, sc, best) k = (tb1, sc1, best1)"
    by (cases "scanStep s (tb, sc, best) k") auto
  with Cons.prems have "foldl (scanStep s) (tb1, sc1, best1) ks = (tb', sc', Some (i, bb))"
    by simp
  from Cons.IH [OF this]
  have "best1 = Some (i, bb) \<or> (i \<in> set ks \<and> \<not> needRemove (boxes s ! i))" .
  moreover have "best1 = best \<or> (\<exists>b. best1 = Some (k, b) \<and> \<not> needRemove (boxes s ! k))"
    using st by (auto simp: scanStep_def Let_def split: if_splits)
  ultimately show ?case by auto
qed

lemma scanBoxes_index:
  assumes "scanBoxes s tb = (tb', sc', Some (i, bb))"
  shows "i < length (boxes s)" and "\<not> needRemove (boxes s ! i)"
  using scan_foldl_index [of s tb 0 None "[0..<length (boxes s)]" tb' sc' i bb] assms
  by (auto simp: scanBoxes_def)

lemma boxes_addPackedBox [simp]: "boxes (addPackedBox box s) = boxes s"
  by (simp add: addPackedBox_def Let_def)

lemma filter_update_needRemove:
  "i < length bs \<Longrightarrow> \<not> needRemove (bs ! i) \<Longrightarrow>
   length (filter (\<lambda>b. \<not> needRemove b) (bs[i := (bs ! i)\<lparr>needRemove := True\<rparr>]))
     < length (filter (\<lambda>b. \<not> needRemove b) bs)"
proof (induction bs arbitrary: i)
  case Nil
  then show ?case by simp
next
  case (Cons b bs)
  then show ?case
    by (cases i) (auto simp: Suc_le_eq)
qed

text \<open>
  The two statements that end a round of the \<open>while\<close> loop of \<open>pack\<close>:
  \<open>this.addPackedBox(bestBox); boxes[bestBoxIndex].needRemove = true\<close>.
\<close>

definition commitBest :: "nat \<Rightarrow> Box \<Rightarrow> Packer \<Rightarrow> Packer" where
  "commitBest bestBoxIndex bestBox s =
     (addPackedBox bestBox s)
       \<lparr>boxes := (boxes s)[bestBoxIndex := (boxes s ! bestBoxIndex)\<lparr>needRemove := True\<rparr>]\<rparr>"

text \<open>
  The \<open>while\<close> loop of \<open>pack\<close>. Every round that does not \<open>break\<close> marks one more box of
  \<open>boxes\<close> as placed, which is why the loop ends.
\<close>

function packLoop :: "Packer \<Rightarrow> Box \<Rightarrow> Packer" where
  "packLoop s testBox =
     (if length (boxes s) \<noteq> length (packedBoxes s) then
        (case scanBoxes s testBox of
           (testBox', bestScore, None) \<Rightarrow> s
         | (testBox', bestScore, Some (bestBoxIndex, bestBox)) \<Rightarrow>
             packLoop (commitBest bestBoxIndex bestBox s) testBox')
      else s)"
  by pat_completeness auto
termination
proof (relation "measure (\<lambda>(s, tb). length (filter (\<lambda>b. \<not> needRemove b) (boxes s)))", goal_cases)
  case 1
  show ?case by simp
next
  case (2 s testBox tb' rest sc' best sel i bb)
  then have "scanBoxes s testBox = (tb', sc', Some (i, bb))"
    by simp
  from scanBoxes_index [OF this] show ?case
    by (simp add: filter_update_needRemove commitBest_def)
qed

declare packLoop.simps [simp del]

text \<open>
  \<open>pack\<close> returns the array \<open>packedBoxes\<close>; the model returns it with the engine after
  the call. The last loop pushes every box not marked to \<open>notPlacedBoxes\<close> and clears
  the marks.
\<close>

definition collectNotPlaced :: "Packer \<Rightarrow> Packer" where
  "collectNotPlaced s =
     s\<lparr>notPlacedBoxes := notPlacedBoxes s @ filter (\<lambda>b. \<not> needRemove b) (boxes s),
       boxes := map (\<lambda>b. b\<lparr>needRemove := False\<rparr>) (boxes s)\<rparr>"

definition pack :: "Packer \<Rightarrow> Box list \<times> Packer" where
  "pack s =
     (let s1 = (if \<not> isPrepared s then prepare s else s);
          s2 = packLoop s1 (newBox 0 0 0 0 0 0 0 0);
          s3 = collectNotPlaced s2
      in (packedBoxes s3, s3))"

subsection \<open>Fullness\<close>

text \<open>
  The marking loops of \<open>calculateFullness\<close>. The state of the pair loop is the array of
  free boxes and \<open>nextMark\<close>; \<open>box1\<close> and \<open>box2\<close> are the entries \<open>i\<close> and \<open>j\<close> of the array.
\<close>

definition markCorner :: "Packer \<Rightarrow> Box \<Rightarrow> Box" where
  "markCorner s box =
     (if right box = containerWidth s \<and> bottom box = containerHeight s
      then box\<lparr>mark := BOTTOM_RIGHT_MARK\<rparr> else box\<lparr>mark := 0\<rparr>)"

definition touchStep :: "nat \<Rightarrow> Box list \<times> int \<Rightarrow> nat \<Rightarrow> Box list \<times> int" where
  "touchStep i st j =
     (case st of (fs, nextMark) \<Rightarrow>
        if isTouched (fs ! i) (fs ! j) then
          (let m = max (mark (fs ! i)) (mark (fs ! j));
               m' = (if m = 0 then nextMark else m);
               nextMark' = (if m = 0 then nextMark + 1 else nextMark)
           in (fs[j := (fs ! j)\<lparr>mark := m'\<rparr>, i := (fs ! i)\<lparr>mark := m'\<rparr>], nextMark'))
        else st)"

definition touchRow :: "Box list \<times> int \<Rightarrow> nat \<Rightarrow> Box list \<times> int" where
  "touchRow st i = foldl (touchStep i) st [Suc i..<length (fst st)]"

definition markTouched :: "Box list \<Rightarrow> Box list" where
  "markTouched fs = fst (foldl touchRow (fs, 1) [0..<length fs - 1])"

definition calculateFullness :: "Packer \<Rightarrow> Packer" where
  "calculateFullness s =
     (let fs = markTouched (map (markCorner s) (freeBoxes s));
          innerSquare = foldl (\<lambda>accum box.
                           if mark box \<noteq> BOTTOM_RIGHT_MARK then accum + square box else accum) 0 fs;
          boxSquare = foldl (\<lambda>accum box. accum + square box) 0 (packedBoxes s)
      in s\<lparr>freeBoxes := fs,
           fullnessCache := oneMinus (jsDiv innerSquare (boxSquare + innerSquare))\<rparr>)"

text \<open>The getter \<open>fullness\<close>: the value read, and the engine after the read.\<close>

definition fullness :: "Packer \<Rightarrow> jsnum \<times> Packer" where
  "fullness s =
     (let s' = (if fullnessCache s = Fin (- 1) then calculateFullness s else s)
      in (fullnessCache s', s'))"

definition boxesSize :: "Packer \<Rightarrow> nat" where
  "boxesSize s = length (boxes s)"

subsection \<open>Sequences of calls\<close>

text \<open>The engine after a sequence of \<open>addBox(width, height, id)\<close> calls.\<close>

definition addBoxes :: "(int \<times> int \<times> int) list \<Rightarrow> Packer \<Rightarrow> Packer" where
  "addBoxes adds s = foldl (\<lambda>s' (w, h, i). addBox w h i s') s adds"

text \<open>\<open>pack()\<close> called \<open>n\<close> times in a row, with no other call in between.\<close>

primrec packTimes :: "nat \<Rightarrow> Packer \<Rightarrow> Packer" where
  "packTimes 0 s = s"
| "packTimes (Suc n) s = snd (pack (packTimes n s))"

text \<open>
  The public operations of the engine that change its state (\<open>prepare\<close> is public in
  the source; reading \<open>fullness\<close> writes the cache and the marks of the free boxes), and
  the engine after a sequence of them.
\<close>

datatype call =
  AddBox int int int | Pack | Prepare | Clear | ResizeContainer int int | ReadFullness

fun step :: "call \<Rightarrow> Packer \<Rightarrow> Packer" where
  "step (AddBox w h i) s = addBox w h i s"
| "step Pack s = snd (pack s)"
| "step Prepare s = prepare s"
| "step Clear s = clear s"
| "step (ResizeContainer w h) s = resizeContainer w h s"
| "step ReadFullness s = snd (fullness s)"

definition run :: "call list \<Rightarrow> Packer \<Rightarrow> Packer" where
  "run calls s = foldl (\<lambda>s' c. step c s') s calls"

fun isResize :: "call \<Rightarrow> bool" where
  "isResize (ResizeContainer w h) = True"
| "isResize c = False"

definition noResize :: "call list \<Rightarrow> bool" where
  "noResize calls \<longleftrightarrow> list_all (\<lambda>c. \<not> isResize c) calls"


section \<open>An invariant rule for the placement loop\<close>

lemma packLoop_unfold:
  "packLoop s tb =
     (if length (boxes s) = length (packedBoxes s) then s
      else case scanBoxes s tb of
             (tb', sc, None) \<Rightarrow> s
           | (tb', sc, Some (i, bb)) \<Rightarrow> packLoop (commitBest i bb s) tb')"
  by (subst packLoop.simps) simp

lemma packLoop_invariant:
  assumes init: "P s"
    and step: "\<And>s tb tb' sc i bb. P s \<Longrightarrow> length (boxes s) \<noteq> length (packedBoxes s) \<Longrightarrow>
                 scanBoxes s tb = (tb', sc, Some (i, bb)) \<Longrightarrow> P (commitBest i bb s)"
  shows "P (packLoop s tb)"
  using init
proof (induction s tb rule: packLoop.induct)
  case (1 s tb)
  show ?case
  proof (cases "length (boxes s) = length (packedBoxes s)")
    case True
    with 1 show ?thesis by (simp add: packLoop_unfold)
  next
    case False
    obtain tb' sc best where sb: "scanBoxes s tb = (tb', sc, best)"
      by (cases "scanBoxes s tb") auto
    show ?thesis
    proof (cases best)
      case None
      with sb False "1.prems" show ?thesis by (simp add: packLoop_unfold)
    next
      case (Some ib)
      obtain i bb where ib: "ib = (i, bb)" by (cases ib) auto
      have "P (commitBest i bb s)"
        using step [OF "1.prems" False] sb Some ib by simp
      then have "P (packLoop (commitBest i bb s) tb')"
        using "1.IH" False sb Some ib by auto
      with sb False Some ib show ?thesis by (simp add: packLoop_unfold)
    qed
  qed
qed

section \<open>Frame properties of the operations\<close>

lemma addPackedBox_frame [simp]:
  "badBoxes (addPackedBox box s) = badBoxes s"
  "notPlacedBoxes (addPackedBox box s) = notPlacedBoxes s"
  "isPrepared (addPackedBox box s) = isPrepared s"
  "fullnessCache (addPackedBox box s) = fullnessCache s"
  "containerWidth (addPackedBox box s) = containerWidth s"
  "containerHeight (addPackedBox box s) = containerHeight s"
  "packedBoxes (addPackedBox box s) = packedBoxes s @ [box]"
  by (simp_all add: addPackedBox_def Let_def)

lemma commitBest_frame [simp]:
  "badBoxes (commitBest i bb s) = badBoxes s"
  "notPlacedBoxes (commitBest i bb s) = notPlacedBoxes s"
  "isPrepared (commitBest i bb s) = isPrepared s"
  "fullnessCache (commitBest i bb s) = fullnessCache s"
  "containerWidth (commitBest i bb s) = containerWidth s"
  "containerHeight (commitBest i bb s) = containerHeight s"
  "packedBoxes (commitBest i bb s) = packedBoxes s @ [bb]"
  "boxes (commitBest i bb s) = (boxes s)[i := (boxes s ! i)\<lparr>needRemove := True\<rparr>]"
  "freeBoxes (commitBest i bb s) = freeBoxes (addPackedBox bb s)"
  by (simp_all add: commitBest_def)

text \<open>The boxes of the engine with the transient removal marks cleared.\<close>

definition unmarked :: "Box list \<Rightarrow> Box list" where
  "unmarked bs = map (\<lambda>b. b\<lparr>needRemove := False\<rparr>) bs"

lemma unmarked_update [simp]:
  "unmarked (bs[i := (bs ! i)\<lparr>needRemove := v\<rparr>]) = unmarked bs"
proof -
  have "(bs[i := (bs ! i)\<lparr>needRemove := v\<rparr>] ! k)\<lparr>needRemove := False\<rparr> =
        (bs ! k)\<lparr>needRemove := False\<rparr>" if "k < length bs" for k
    using that by (cases "k = i") simp_all
  then show ?thesis
    by (simp add: unmarked_def list_eq_iff_nth_eq)
qed

lemma packLoop_frame:
  "badBoxes (packLoop s tb) = badBoxes s \<and>
   notPlacedBoxes (packLoop s tb) = notPlacedBoxes s \<and>
   isPrepared (packLoop s tb) = isPrepared s \<and>
   fullnessCache (packLoop s tb) = fullnessCache s \<and>
   containerWidth (packLoop s tb) = containerWidth s \<and>
   containerHeight (packLoop s tb) = containerHeight s \<and>
   unmarked (boxes (packLoop s tb)) = unmarked (boxes s)"
  by (rule packLoop_invariant
      [where P = "\<lambda>s'. badBoxes s' = badBoxes s \<and> notPlacedBoxes s' = notPlacedBoxes s \<and>
          isPrepared s' = isPrepared s \<and> fullnessCache s' = fullnessCache s \<and>
          containerWidth s' = containerWidth s \<and> containerHeight s' = containerHeight s \<and>
          unmarked (boxes s') = unmarked (boxes s)"]) simp_all

lemma isBad_update [simp]:
  "isBad (s\<lparr>boxes := a\<rparr>) = isBad s"
  "isBad (s\<lparr>packedBoxes := a\<rparr>) = isBad s"
  "isBad (s\<lparr>freeBoxes := a\<rparr>) = isBad s"
  "isBad (s\<lparr>badBoxes := a\<rparr>) = isBad s"
  "isBad (s\<lparr>notPlacedBoxes := a\<rparr>) = isBad s"
  "isBad (s\<lparr>isPrepared := p\<rparr>) = isBad s"
  "isBad (s\<lparr>fullnessCache := c\<rparr>) = isBad s"
  by (simp_all add: fun_eq_iff isBad_def)

lemma prepare_fields [simp]:
  "fullnessCache (prepare s) = Fin (- 1)"
  "isPrepared (prepare s) = True"
  "containerWidth (prepare s) = containerWidth s"
  "containerHeight (prepare s) = containerHeight s"
  "packedBoxes (prepare s) = []"
  "notPlacedBoxes (prepare s) = []"
  "badBoxes (prepare s) = filter (isBad s) (boxes s)"
  "boxes (prepare s) = sortBoxes (filter (\<lambda>b. \<not> isBad s b) (boxes s))"
  "freeBoxes (prepare s) = [createFromCoord 0 0 (containerWidth s) (containerHeight s) 0 0]"
  by (simp_all add: prepare_def reset_def filterBadBoxes_def addFreeBox_def Let_def)

lemma collectNotPlaced_fields [simp]:
  "fullnessCache (collectNotPlaced s) = fullnessCache s"
  "isPrepared (collectNotPlaced s) = isPrepared s"
  "containerWidth (collectNotPlaced s) = containerWidth s"
  "containerHeight (collectNotPlaced s) = containerHeight s"
  "packedBoxes (collectNotPlaced s) = packedBoxes s"
  "freeBoxes (collectNotPlaced s) = freeBoxes s"
  "badBoxes (collectNotPlaced s) = badBoxes s"
  "boxes (collectNotPlaced s) = unmarked (boxes s)"
  "notPlacedBoxes (collectNotPlaced s) =
     notPlacedBoxes s @ filter (\<lambda>b. \<not> needRemove b) (boxes s)"
  by (simp_all add: collectNotPlaced_def unmarked_def)

section \<open>The geometric predicates\<close>

text \<open>
  The reading of the separation test in the specification: the closed intervals
  \<open>[left, right]\<close> and \<open>[top, bottom]\<close> of the two boxes intersect on both axes.
\<close>

definition closedIntervalsIntersect :: "Box \<Rightarrow> Box \<Rightarrow> bool" where
  "closedIntervalsIntersect a b \<longleftrightarrow>
     max (left a) (left b) \<le> min (right a) (right b) \<and>
     max (topB a) (topB b) \<le> min (bottom a) (bottom b)"

text \<open>
  C6, as stated, fails on two boxes that share an edge: the unit squares at \<open>(0,0)\<close> and
  \<open>(1,0)\<close> have intersecting closed intervals on both axes, and \<open>Box.isSeparated\<close> is
  false on them.
\<close>

theorem C6_counterexample:
  "\<not> (isSeparated (createFromCoord 0 0 1 1 0 0) (createFromCoord 1 0 2 1 0 0) \<longleftrightarrow>
      closedIntervalsIntersect (createFromCoord 0 0 1 1 0 0) (createFromCoord 1 0 2 1 0 0))"
  by (simp add: isSeparated_def closedIntervalsIntersect_def createFromCoord_def newBox_def)

text \<open>
  C6 (amended): \<open>Box.isSeparated\<close> is true exactly when the open intervals of the two
  boxes overlap on both axes (strict inequalities, so boxes that share only an edge or
  a corner do not overlap), and on every pair of boxes it has the value of
  \<open>Box.isTouched\<close>: the two predicates never disagree.
\<close>

theorem C6_isSeparated_strict:
  "(isSeparated a b \<longleftrightarrow>
      left b < right a \<and> left a < right b \<and> topB b < bottom a \<and> topB a < bottom b) \<and>
   (isSeparated a b \<longleftrightarrow> isTouched a b)"
  by (auto simp: isSeparated_def isTouched_def)

section \<open>Fullness and its cache\<close>

text \<open>
  C3 fails on the code: on an engine on which nothing has been packed, and on one whose
  only rectangle was rejected, both sums of \<open>calculateFullness\<close> are zero and the
  accessor returns \<open>NaN\<close> (\<open>1 - 0 / 0\<close>), which is not a number between 0 and 1.
\<close>

theorem C3_fullness_NaN:
  "fst (fullness (newPacker 100 100)) = NaN \<and>
   fst (fullness (snd (pack (addBox 20 20 1 (newPacker 10 10))))) = NaN"
  by code_simp



section \<open>Resizing the container\<close>



section \<open>Splitting and pruning the free boxes\<close>

text \<open>What the first loop of \<open>addPackedBox\<close> does to one free box: mark it when it overlaps.\<close>

definition markSplit :: "Box \<Rightarrow> Box \<Rightarrow> Box" where
  "markSplit box g = (if isSeparated g box then g\<lparr>needRemove := True\<rparr> else g)"

lemma markSplit_strips [simp]:
  "map (markSplit box) (splitFreeBox f box) = splitFreeBox f box"
  by (rule map_idI) (simp add: markSplit_def splitFreeBox_not_separated)

text \<open>
  The loop in closed form: the entries before \<open>i\<close> are left alone, the overlapping
  entries from \<open>i\<close> on are marked, and their strips follow at the end of the array in
  the order of the entries.
\<close>

lemma splitLoop_eq:
  "splitLoop box i fs =
     take i fs @ map (markSplit box) (drop i fs) @
     concat (map (\<lambda>g. splitFreeBox g box) (filter (\<lambda>g. isSeparated g box) (drop i fs)))"
proof (induction box i fs rule: splitLoop.induct)
  case (1 box i fs)
  show ?case
  proof (cases "i < length fs")
    case False
    then show ?thesis by (subst splitLoop.simps) simp
  next
    case True
    then have dr: "drop i fs = fs ! i # drop (Suc i) fs"
      by (simp add: Cons_nth_drop_Suc)
    show ?thesis
    proof (cases "isSeparated (fs ! i) box")
      case False
      with True have "splitLoop box i fs = splitLoop box (Suc i) fs"
        by (subst splitLoop.simps) simp
      also have "\<dots> = take (Suc i) fs @ map (markSplit box) (drop (Suc i) fs) @
          concat (map (\<lambda>g. splitFreeBox g box)
            (filter (\<lambda>g. isSeparated g box) (drop (Suc i) fs)))"
        using "1.IH"(2) True False by simp
      finally show ?thesis
        using True False dr by (simp add: take_Suc_conv_app_nth markSplit_def)
    next
      case sep: True
      define m where "m = (fs ! i)\<lparr>needRemove := True\<rparr>"
      define S where "S = splitFreeBox (fs ! i) box"
      define fs' where "fs' = (fs @ S)[i := m]"
      have fs': "fs' = fs[i := m] @ S"
        using True by (simp add: fs'_def list_update_append1)
      have tk: "take (Suc i) fs' = take i fs @ [m]"
        using True by (simp add: fs' take_Suc_conv_app_nth)
      have dp: "drop (Suc i) fs' = drop (Suc i) fs @ S"
        using True by (simp add: fs')
      have "splitLoop box i fs = splitLoop box (Suc i) fs'"
        using True sep by (subst splitLoop.simps) (simp add: fs'_def m_def S_def)
      also have "\<dots> = take (Suc i) fs' @ map (markSplit box) (drop (Suc i) fs') @
          concat (map (\<lambda>g. splitFreeBox g box)
            (filter (\<lambda>g. isSeparated g box) (drop (Suc i) fs')))"
        using "1.IH"(1) True sep by (simp add: fs'_def m_def S_def)
      also have "\<dots> = take i fs @ [m] @ map (markSplit box) (drop (Suc i) fs) @ S @
          concat (map (\<lambda>g. splitFreeBox g box)
            (filter (\<lambda>g. isSeparated g box) (drop (Suc i) fs)))"
        by (simp add: tk dp S_def)
      finally show ?thesis
        using sep dr by (simp add: markSplit_def m_def S_def)
    qed
  qed
qed

lemma splitLoop_0:
  "splitLoop box 0 fs =
     map (markSplit box) fs @
     concat (map (\<lambda>g. splitFreeBox g box) (filter (\<lambda>g. isSeparated g box) fs))"
  by (simp add: splitLoop_eq)

text \<open>The pruning loops only set removal marks.\<close>

definition marksOnly :: "Box list \<Rightarrow> Box list \<Rightarrow> bool" where
  "marksOnly fs gs \<longleftrightarrow>
     length gs = length fs \<and>
     (\<forall>k < length fs. gs ! k = fs ! k \<or> gs ! k = (fs ! k)\<lparr>needRemove := True\<rparr>)"

lemma marksOnly_refl [simp]: "marksOnly fs fs"
  by (simp add: marksOnly_def)

lemma marksOnly_update:
  "i < length fs \<Longrightarrow> marksOnly fs (fs[i := (fs ! i)\<lparr>needRemove := True\<rparr>])"
  by (simp add: marksOnly_def nth_list_update)

lemma marksOnly_trans:
  "marksOnly fs gs \<Longrightarrow> marksOnly gs hs \<Longrightarrow> marksOnly fs hs"
proof -
  assume a: "marksOnly fs gs" and b: "marksOnly gs hs"
  have "hs ! k = fs ! k \<or> hs ! k = (fs ! k)\<lparr>needRemove := True\<rparr>" if "k < length fs" for k
  proof -
    from a that have "gs ! k = fs ! k \<or> gs ! k = (fs ! k)\<lparr>needRemove := True\<rparr>"
      by (simp add: marksOnly_def)
    moreover from a b that have "hs ! k = gs ! k \<or> hs ! k = (gs ! k)\<lparr>needRemove := True\<rparr>"
      by (simp add: marksOnly_def)
    ultimately show ?thesis by auto
  qed
  with a b show ?thesis by (simp add: marksOnly_def)
qed

lemma marksOnly_pruneInner: "i < length fs \<Longrightarrow> marksOnly fs (pruneInner i j fs)"
proof (induction i j fs rule: pruneInner.induct)
  case (1 i j fs)
  show ?case
  proof (cases "j < length fs")
    case False
    then show ?thesis by (subst pruneInner.simps) simp
  next
    case True
    consider (skip) "needRemove (fs ! j)"
      | (inner) "\<not> needRemove (fs ! j)" "isContained (fs ! i) (fs ! j)"
      | (outer) "\<not> needRemove (fs ! j)" "\<not> isContained (fs ! i) (fs ! j)"
          "isContained (fs ! j) (fs ! i)"
      | (none) "\<not> needRemove (fs ! j)" "\<not> isContained (fs ! i) (fs ! j)"
          "\<not> isContained (fs ! j) (fs ! i)"
      by blast
    then show ?thesis
    proof cases
      case skip
      with True "1.IH"(1) "1.prems" show ?thesis
        by (subst pruneInner.simps) simp
    next
      case inner
      with True "1.prems" show ?thesis
        by (subst pruneInner.simps) (simp add: marksOnly_update)
    next
      case outer
      have "marksOnly (fs[j := (fs ! j)\<lparr>needRemove := True\<rparr>])
              (pruneInner i (Suc j) (fs[j := (fs ! j)\<lparr>needRemove := True\<rparr>]))"
        using "1.IH"(2) True outer "1.prems" by simp
      with marksOnly_update [OF True]
      have "marksOnly fs (pruneInner i (Suc j) (fs[j := (fs ! j)\<lparr>needRemove := True\<rparr>]))"
        by (rule marksOnly_trans)
      with True outer show ?thesis
        by (subst pruneInner.simps) simp
    next
      case none
      with True "1.IH"(3) "1.prems" show ?thesis
        by (subst pruneInner.simps) simp
    qed
  qed
qed

lemma marksOnly_pruneOuter: "marksOnly fs (pruneOuter i fs)"
proof (induction i fs rule: pruneOuter.induct)
  case (1 i fs)
  show ?case
  proof (cases "Suc i < length fs")
    case False
    then show ?thesis by (subst pruneOuter.simps) simp
  next
    case True
    show ?thesis
    proof (cases "needRemove (fs ! i)")
      case True
      with \<open>Suc i < length fs\<close> "1.IH"(1) show ?thesis
        by (subst pruneOuter.simps) simp
    next
      case False
      have "marksOnly fs (pruneInner i (Suc i) fs)"
        using True by (simp add: marksOnly_pruneInner)
      moreover have "marksOnly (pruneInner i (Suc i) fs) (pruneOuter (Suc i) (pruneInner i (Suc i) fs))"
        using "1.IH"(2) True False by simp
      ultimately have "marksOnly fs (pruneOuter (Suc i) (pruneInner i (Suc i) fs))"
        by (rule marksOnly_trans)
      with True False show ?thesis
        by (subst pruneOuter.simps) simp
    qed
  qed
qed

lemma marksOnly_filter:
  assumes "marksOnly fs gs"
  shows "set (filter (\<lambda>b. \<not> needRemove b) gs) \<subseteq> set (filter (\<lambda>b. \<not> needRemove b) fs)"
proof
  fix g assume "g \<in> set (filter (\<lambda>b. \<not> needRemove b) gs)"
  then obtain k where k: "k < length gs" "gs ! k = g" "\<not> needRemove g"
    by (auto simp: in_set_conv_nth)
  with assms have "g = fs ! k" "k < length fs"
    by (auto simp: marksOnly_def)
  with k show "g \<in> set (filter (\<lambda>b. \<not> needRemove b) fs)"
    by auto
qed

text \<open>
  The pruning loops remove a free box only when another free box that stays holds it:
  every box without a mark before the loops lies in a box without a mark after them.
\<close>

definition survivorsCover :: "Box list \<Rightarrow> Box list \<Rightarrow> bool" where
  "survivorsCover fs gs \<longleftrightarrow>
     (\<forall>g. g \<in> set fs \<and> \<not> needRemove g \<longrightarrow>
        (\<exists>g'. g' \<in> set gs \<and> \<not> needRemove g' \<and> isContained g g'))"

lemma isContained_refl [simp]: "isContained g g"
  by (simp add: isContained_def)

lemma isContained_trans: "isContained a b \<Longrightarrow> isContained b c \<Longrightarrow> isContained a c"
  by (auto simp: isContained_def)

lemma survivorsCover_refl [simp]: "survivorsCover fs fs"
  unfolding survivorsCover_def by (blast intro: isContained_refl)

lemma survivorsCover_trans:
  "survivorsCover fs gs \<Longrightarrow> survivorsCover gs hs \<Longrightarrow> survivorsCover fs hs"
  unfolding survivorsCover_def by (blast intro: isContained_trans)

lemma survivorsCover_flag:
  assumes i: "i < length fs" and j: "j < length fs" and ne: "i \<noteq> j"
    and keep: "\<not> needRemove (fs ! j)" and cont: "isContained (fs ! i) (fs ! j)"
  shows "survivorsCover fs (fs[i := (fs ! i)\<lparr>needRemove := True\<rparr>])"
  unfolding survivorsCover_def
proof (intro allI impI)
  fix g assume g: "g \<in> set fs \<and> \<not> needRemove g"
  let ?gs = "fs[i := (fs ! i)\<lparr>needRemove := True\<rparr>]"
  from g obtain k where k: "k < length fs" "fs ! k = g"
    by (auto simp: in_set_conv_nth)
  have at_j: "?gs ! j = fs ! j" "j < length ?gs"
    using j ne by simp_all
  show "\<exists>g'. g' \<in> set ?gs \<and> \<not> needRemove g' \<and> isContained g g'"
  proof (cases "k = i")
    case True
    with k cont have "isContained g (fs ! j)" by simp
    moreover from at_j have "fs ! j \<in> set ?gs" by (metis nth_mem)
    ultimately show ?thesis using keep by blast
  next
    case False
    with k have "?gs ! k = g" "k < length ?gs" by simp_all
    then have "g \<in> set ?gs" by (metis nth_mem)
    with g show ?thesis by (blast intro: isContained_refl)
  qed
qed

lemma survivorsCover_pruneInner:
  "i < j \<Longrightarrow> i < length fs \<Longrightarrow> \<not> needRemove (fs ! i) \<Longrightarrow>
   survivorsCover fs (pruneInner i j fs)"
proof (induction i j fs rule: pruneInner.induct)
  case (1 i j fs)
  show ?case
  proof (cases "j < length fs")
    case False
    then show ?thesis by (subst pruneInner.simps) simp
  next
    case True
    consider (skip) "needRemove (fs ! j)"
      | (inner) "\<not> needRemove (fs ! j)" "isContained (fs ! i) (fs ! j)"
      | (outer) "\<not> needRemove (fs ! j)" "\<not> isContained (fs ! i) (fs ! j)"
          "isContained (fs ! j) (fs ! i)"
      | (none) "\<not> needRemove (fs ! j)" "\<not> isContained (fs ! i) (fs ! j)"
          "\<not> isContained (fs ! j) (fs ! i)"
      by blast
    then show ?thesis
    proof cases
      case skip
      with True "1.IH"(1) "1.prems" show ?thesis
        by (subst pruneInner.simps) simp
    next
      case inner
      have "survivorsCover fs (fs[i := (fs ! i)\<lparr>needRemove := True\<rparr>])"
        using "1.prems" True inner by (intro survivorsCover_flag) simp_all
      with True inner show ?thesis
        by (subst pruneInner.simps) simp
    next
      case outer
      let ?fs' = "fs[j := (fs ! j)\<lparr>needRemove := True\<rparr>]"
      have a: "survivorsCover fs ?fs'"
        using "1.prems" True outer by (intro survivorsCover_flag) simp_all
      have "survivorsCover ?fs' (pruneInner i (Suc j) ?fs')"
        using "1.IH"(2) True outer "1.prems" by simp
      with a have "survivorsCover fs (pruneInner i (Suc j) ?fs')"
        by (rule survivorsCover_trans)
      with True outer show ?thesis
        by (subst pruneInner.simps) simp
    next
      case none
      with True "1.IH"(3) "1.prems" show ?thesis
        by (subst pruneInner.simps) simp
    qed
  qed
qed

lemma survivorsCover_pruneOuter: "survivorsCover fs (pruneOuter i fs)"
proof (induction i fs rule: pruneOuter.induct)
  case (1 i fs)
  show ?case
  proof (cases "Suc i < length fs")
    case False
    then show ?thesis by (subst pruneOuter.simps) simp
  next
    case True
    show ?thesis
    proof (cases "needRemove (fs ! i)")
      case True
      with \<open>Suc i < length fs\<close> "1.IH"(1) show ?thesis
        by (subst pruneOuter.simps) simp
    next
      case False
      have "survivorsCover fs (pruneInner i (Suc i) fs)"
        using True False by (intro survivorsCover_pruneInner) simp_all
      moreover have "survivorsCover (pruneInner i (Suc i) fs)
          (pruneOuter (Suc i) (pruneInner i (Suc i) fs))"
        using "1.IH"(2) True False by simp
      ultimately have "survivorsCover fs (pruneOuter (Suc i) (pruneInner i (Suc i) fs))"
        by (rule survivorsCover_trans)
      with True False show ?thesis
        by (subst pruneOuter.simps) simp
    qed
  qed
qed

text \<open>
  Where the free boxes of the engine come from after \<open>addPackedBox\<close>: a free box that
  was there and does not overlap the placed box, or a strip of one that overlaps it.
\<close>

lemma freeBoxes_addPackedBox:
  "set (freeBoxes (addPackedBox box s)) \<subseteq>
     {g \<in> set (freeBoxes s). \<not> isSeparated g box} \<union>
     (\<Union>f \<in> {f \<in> set (freeBoxes s). isSeparated f box}. set (splitFreeBox f box))"
proof -
  have "set (freeBoxes (addPackedBox box s))
          \<subseteq> set (filter (\<lambda>b. \<not> needRemove b) (splitLoop box 0 (freeBoxes s)))"
    using marksOnly_filter [OF marksOnly_pruneOuter]
    by (simp add: addPackedBox_def Let_def)
  also have "\<dots> \<subseteq> {g \<in> set (freeBoxes s). \<not> isSeparated g box} \<union>
     (\<Union>f \<in> {f \<in> set (freeBoxes s). isSeparated f box}. set (splitFreeBox f box))"
    by (auto simp: splitLoop_0 markSplit_def split: if_splits)
  finally show ?thesis .
qed

text \<open>Points of the plane in the open interior of a box, and in the closed box.\<close>

definition inInterior :: "Box \<Rightarrow> real \<Rightarrow> real \<Rightarrow> bool" where
  "inInterior b x y \<longleftrightarrow>
     of_int (left b) < x \<and> x < of_int (right b) \<and> of_int (topB b) < y \<and> y < of_int (bottom b)"

definition inClosed :: "Box \<Rightarrow> real \<Rightarrow> real \<Rightarrow> bool" where
  "inClosed b x y \<longleftrightarrow>
     of_int (left b) \<le> x \<and> x \<le> of_int (right b) \<and> of_int (topB b) \<le> y \<and> y \<le> of_int (bottom b)"

lemma strip_props:
  assumes "isSeparated f box" "left f < right f" "topB f < bottom f"
    and "g \<in> set (splitFreeBox f box)"
  shows "0 < square g" and "isContained g f"
    and "\<not> (inInterior g x y \<and> inInterior box x y)"
proof -
  from assms show "0 < square g"
    by (auto simp: splitFreeBox_def createFromCoord_def newBox_def square_def isSeparated_def
        zero_less_mult_iff split: if_splits)
  from assms show "isContained g f"
    by (auto simp: splitFreeBox_def createFromCoord_def newBox_def isContained_def
        isSeparated_def split: if_splits)
  from assms(4) show "\<not> (inInterior g x y \<and> inInterior box x y)"
    by (auto simp: splitFreeBox_def createFromCoord_def newBox_def inInterior_def
        split: if_splits)
qed

lemma strips_cover:
  assumes "isSeparated f box" "inInterior f x y" "\<not> inInterior box x y"
  shows "\<exists>g \<in> set (splitFreeBox f box). inClosed g x y"
proof -
  from assms(1) have ov: "left box < right f" "left f < right box"
    "topB box < bottom f" "topB f < bottom box"
    by (auto simp: isSeparated_def)
  from assms(2) have fi: "of_int (left f) < x" "x < of_int (right f)"
    "of_int (topB f) < y" "y < of_int (bottom f)"
    by (auto simp: inInterior_def)
  from assms(3) consider (above) "y \<le> of_int (topB box)" | (below) "of_int (bottom box) \<le> y"
    | (leftof) "x \<le> of_int (left box)" | (rightof) "of_int (right box) \<le> x"
    by (auto simp: inInterior_def not_less)
  then show ?thesis
  proof cases
    case above
    with fi have "of_int (topB f) < (of_int (topB box) :: real)" by linarith
    then have "topB f < topB box" by simp
    with ov have "createFromCoord (left f) (topB f) (right f) (topB box) 0 0
        \<in> set (splitFreeBox f box)"
      by (simp add: splitFreeBox_def)
    moreover have "inClosed (createFromCoord (left f) (topB f) (right f) (topB box) 0 0) x y"
      using fi above by (simp add: inClosed_def createFromCoord_def newBox_def)
    ultimately show ?thesis by blast
  next
    case below
    with fi have "of_int (bottom box) < (of_int (bottom f) :: real)" by linarith
    then have "bottom box < bottom f" by simp
    then have "createFromCoord (left f) (bottom box) (right f) (bottom f) 0 0
        \<in> set (splitFreeBox f box)"
      by (simp add: splitFreeBox_def)
    moreover have "inClosed (createFromCoord (left f) (bottom box) (right f) (bottom f) 0 0) x y"
      using fi below by (simp add: inClosed_def createFromCoord_def newBox_def)
    ultimately show ?thesis by blast
  next
    case leftof
    with fi have "of_int (left f) < (of_int (left box) :: real)" by linarith
    then have "left f < left box" by simp
    with ov have "createFromCoord (left f) (topB f) (left box) (bottom f) 0 0
        \<in> set (splitFreeBox f box)"
      by (simp add: splitFreeBox_def)
    moreover have "inClosed (createFromCoord (left f) (topB f) (left box) (bottom f) 0 0) x y"
      using fi leftof by (simp add: inClosed_def createFromCoord_def newBox_def)
    ultimately show ?thesis by blast
  next
    case rightof
    with fi have "of_int (right box) < (of_int (right f) :: real)" by linarith
    then have "right box < right f" by simp
    then have "createFromCoord (right box) (topB f) (right f) (bottom f) 0 0
        \<in> set (splitFreeBox f box)"
      by (simp add: splitFreeBox_def)
    moreover have "inClosed (createFromCoord (right box) (topB f) (right f) (bottom f) 0 0) x y"
      using fi rightof by (simp add: inClosed_def createFromCoord_def newBox_def)
    ultimately show ?thesis by blast
  qed
qed

lemma strip_unmarked: "g \<in> set (splitFreeBox f bb) \<Longrightarrow> \<not> needRemove g"
  by (auto simp: splitFreeBox_def createFromCoord_def newBox_def split: if_splits)

lemma length_splitFreeBox: "length (splitFreeBox f box) \<le> 4"
  by (simp add: splitFreeBox_def)

text \<open>
  C2: when \<open>addPackedBox\<close> commits the box \<open>box\<close>, a free box \<open>f\<close> of positive extent that
  overlaps it (\<open>Box.isSeparated\<close>) is not a free box of the engine any more, and no free
  box left overlaps \<open>box\<close>. The split pushes at most four strips of \<open>f\<close> to the array
  of free boxes; every strip has positive area, lies within \<open>f\<close>, has no interior
  point in common with \<open>box\<close>, and lies in a free box of the engine after the call (the
  strip itself, unless the pruning found it inside another free box); and every
  interior point of \<open>f\<close> that is not an interior point of \<open>box\<close> (so every point outside
  \<open>box\<close>) lies in one of the strips.
\<close>

theorem C2_split_free_box:
  assumes "f \<in> set (freeBoxes s)" and "isSeparated f box"
    and "left f < right f" and "topB f < bottom f"
  shows "f \<notin> set (freeBoxes (addPackedBox box s)) \<and>
    (\<forall>g \<in> set (freeBoxes (addPackedBox box s)). \<not> isSeparated g box) \<and>
    length (splitFreeBox f box) \<le> 4 \<and>
    set (splitFreeBox f box) \<subseteq> set (splitLoop box 0 (freeBoxes s)) \<and>
    (\<forall>g \<in> set (splitFreeBox f box).
       0 < square g \<and> isContained g f \<and>
       (\<forall>x y. \<not> (inInterior g x y \<and> inInterior box x y)) \<and>
       (\<exists>g' \<in> set (freeBoxes (addPackedBox box s)). isContained g g')) \<and>
    (\<forall>x y. inInterior f x y \<and> \<not> inInterior box x y \<longrightarrow>
       (\<exists>g \<in> set (splitFreeBox f box). inClosed g x y))"
proof -
  have kept: "\<exists>g' \<in> set (freeBoxes (addPackedBox box s)). isContained g g'"
    if "g \<in> set (splitFreeBox f box)" for g
  proof -
    from that assms(1,2) have "g \<in> set (splitLoop box 0 (freeBoxes s))"
      by (auto simp: splitLoop_0)
    with strip_unmarked [OF that] survivorsCover_pruneOuter [of "splitLoop box 0 (freeBoxes s)" 0]
    obtain g' where "g' \<in> set (pruneOuter 0 (splitLoop box 0 (freeBoxes s)))"
        "\<not> needRemove g'" "isContained g g'"
      unfolding survivorsCover_def by blast
    then show ?thesis
      by (auto simp: addPackedBox_def Let_def)
  qed
  have none: "\<not> isSeparated g box" if "g \<in> set (freeBoxes (addPackedBox box s))" for g
    using that freeBoxes_addPackedBox [of box s] splitFreeBox_not_separated by auto
  with assms(2) have gone: "f \<notin> set (freeBoxes (addPackedBox box s))"
    by blast
  have pushed: "set (splitFreeBox f box) \<subseteq> set (splitLoop box 0 (freeBoxes s))"
    using assms(1,2) by (auto simp: splitLoop_0)
  from none gone pushed length_splitFreeBox kept
    strip_props [OF assms(2,3,4)] strips_cover [OF assms(2)]
  show ?thesis by blast
qed

text \<open>
  The instance of C2 on the first placement of a \<open>6 \<times> 6\<close> box in a \<open>10 \<times> 10\<close>
  container: the free box is the whole container, the strips are the bottom strip and
  the right strip, and the point \<open>(7, 3)\<close> lies in the right strip.
\<close>

theorem C2_witness:
  "createFromCoord 0 0 10 10 0 0 \<in> set (freeBoxes (prepare (addBox 6 6 1 (newPacker 10 10)))) \<and>
   isSeparated (createFromCoord 0 0 10 10 0 0) (createFromCoord 0 0 6 6 1 0) \<and>
   left (createFromCoord 0 0 10 10 0 0) < right (createFromCoord 0 0 10 10 0 0) \<and>
   topB (createFromCoord 0 0 10 10 0 0) < bottom (createFromCoord 0 0 10 10 0 0) \<and>
   createFromCoord 0 0 10 10 0 0 \<notin>
     set (freeBoxes (addPackedBox (createFromCoord 0 0 6 6 1 0)
            (prepare (addBox 6 6 1 (newPacker 10 10))))) \<and>
   splitFreeBox (createFromCoord 0 0 10 10 0 0) (createFromCoord 0 0 6 6 1 0) =
     [createFromCoord 0 6 10 10 0 0, createFromCoord 6 0 10 10 0 0] \<and>
   0 < square (createFromCoord 6 0 10 10 0 0) \<and>
   isContained (createFromCoord 6 0 10 10 0 0) (createFromCoord 0 0 10 10 0 0) \<and>
   inInterior (createFromCoord 0 0 10 10 0 0) 7 3 \<and>
   \<not> inInterior (createFromCoord 0 0 6 6 1 0) 7 3 \<and>
   (\<exists>g \<in> set (splitFreeBox (createFromCoord 0 0 10 10 0 0) (createFromCoord 0 0 6 6 1 0)).
      inClosed g 7 3)"
proof -
  have h1: "createFromCoord 0 0 10 10 0 0
      \<in> set (freeBoxes (prepare (addBox 6 6 1 (newPacker 10 10))))"
    by (simp add: newPacker_def addBox_def)
  have h2: "isSeparated (createFromCoord 0 0 10 10 0 0) (createFromCoord 0 0 6 6 1 0)"
    by (simp add: isSeparated_def createFromCoord_def newBox_def)
  have h3: "left (createFromCoord 0 0 10 10 0 0) < right (createFromCoord 0 0 10 10 0 0)"
    by (simp add: createFromCoord_def newBox_def)
  have h4: "topB (createFromCoord 0 0 10 10 0 0) < bottom (createFromCoord 0 0 10 10 0 0)"
    by (simp add: createFromCoord_def newBox_def)
  have strips: "splitFreeBox (createFromCoord 0 0 10 10 0 0) (createFromCoord 0 0 6 6 1 0) =
     [createFromCoord 0 6 10 10 0 0, createFromCoord 6 0 10 10 0 0]"
    by (simp add: splitFreeBox_def createFromCoord_def newBox_def)
  have pt: "inInterior (createFromCoord 0 0 10 10 0 0) 7 3"
    "\<not> inInterior (createFromCoord 0 0 6 6 1 0) 7 3"
    by (simp_all add: inInterior_def createFromCoord_def newBox_def)
  note inst = C2_split_free_box [OF h1 h2 h3 h4]
  have "createFromCoord 6 0 10 10 0 0
      \<in> set (splitFreeBox (createFromCoord 0 0 10 10 0 0) (createFromCoord 0 0 6 6 1 0))"
    by (simp add: strips)
  with inst have "0 < square (createFromCoord 6 0 10 10 0 0)"
    "isContained (createFromCoord 6 0 10 10 0 0) (createFromCoord 0 0 10 10 0 0)"
    by blast+
  moreover from inst pt
  have "\<exists>g \<in> set (splitFreeBox (createFromCoord 0 0 10 10 0 0) (createFromCoord 0 0 6 6 1 0)).
      inClosed g 7 3"
    by blast
  moreover from inst
  have "createFromCoord 0 0 10 10 0 0 \<notin>
     set (freeBoxes (addPackedBox (createFromCoord 0 0 6 6 1 0)
            (prepare (addBox 6 6 1 (newPacker 10 10)))))"
    by blast
  ultimately show ?thesis
    using h1 h2 h3 h4 strips pt by blast
qed

section \<open>What the scan of \<open>pack\<close> selects\<close>

text \<open>
  The test box sits in the top left corner of the free box \<open>f\<close> with the size \<open>w \<times> h\<close>,
  which fits into \<open>f\<close>.
\<close>

definition placedIn :: "Box \<Rightarrow> int \<Rightarrow> int \<Rightarrow> Box \<Rightarrow> bool" where
  "placedIn f w h tb \<longleftrightarrow>
     width f \<ge> w \<and> height f \<ge> h \<and>
     left tb = left f \<and> topB tb = topB f \<and> right tb = left f + w \<and> bottom tb = topB f + h \<and>
     width tb = w \<and> height tb = h"

text \<open>The test box is a candidate position of \<open>box\<close>, in one of the two orientations.\<close>

definition candidateOf :: "Packer \<Rightarrow> Box \<Rightarrow> Box \<Rightarrow> bool" where
  "candidateOf s box tb \<longleftrightarrow>
     (\<exists>f \<in> set (freeBoxes s).
        placedIn f (width box) (height box) tb \<or> placedIn f (height box) (width box) tb)"

text \<open>The scan selected the pending box \<open>i\<close> and the position \<open>bb\<close> for it.\<close>

definition selected :: "Packer \<Rightarrow> nat \<Rightarrow> Box \<Rightarrow> bool" where
  "selected s i bb \<longleftrightarrow>
     i < length (boxes s) \<and> \<not> needRemove (boxes s ! i) \<and>
     candidateOf s (boxes s ! i) bb \<and> idB bb = idB (boxes s ! i) \<and> \<not> needRemove bb"

lemma tryFit_cases:
  assumes "tryFit s f w h (tb, best) = (tb1, best1)"
  shows "(tb1 = tb \<and> best1 = best) \<or> (best < best1 \<and> placedIn f w h tb1)"
  using assms
  by (auto simp: tryFit_def Let_def placedIn_def setCoord_def split: if_splits)

lemma fitStep_cases:
  assumes "fitStep s box (tb, best) f = (tb1, best1)"
  shows "(tb1 = tb \<and> best1 = best) \<or>
     (best < best1 \<and>
      (placedIn f (width box) (height box) tb1 \<or> placedIn f (height box) (width box) tb1))"
proof -
  obtain tb0 best0 where a: "tryFit s f (width box) (height box) (tb, best) = (tb0, best0)"
    by (cases "tryFit s f (width box) (height box) (tb, best)") auto
  with assms have b: "tryFit s f (height box) (width box) (tb0, best0) = (tb1, best1)"
    by (simp add: fitStep_def)
  from tryFit_cases [OF a] tryFit_cases [OF b] show ?thesis
    by auto
qed

lemma fit_foldl:
  assumes "foldl (fitStep s box) (tb, best) fs = (tb', best')"
    and "- 1 \<le> best" and "- 1 < best \<longrightarrow> candidateOf s box tb"
    and "set fs \<subseteq> set (freeBoxes s)"
  shows "- 1 \<le> best' \<and> (- 1 < best' \<longrightarrow> candidateOf s box tb')"
  using assms
proof (induction fs arbitrary: tb best)
  case Nil
  then show ?case by simp
next
  case (Cons f fs)
  obtain tb1 best1 where st: "fitStep s box (tb, best) f = (tb1, best1)"
    by (cases "fitStep s box (tb, best) f") auto
  from fitStep_cases [OF st] Cons.prems(2,3,4)
  have "- 1 \<le> best1" "- 1 < best1 \<longrightarrow> candidateOf s box tb1"
    by (auto simp: candidateOf_def)
  moreover from Cons.prems(1) st have "foldl (fitStep s box) (tb1, best1) fs = (tb', best')"
    by simp
  ultimately show ?case
    using Cons.IH [of tb1 best1] Cons.prems(4) by simp
qed

lemma candidateOf_fields [simp]:
  "candidateOf s box (tb\<lparr>mark := m\<rparr>) = candidateOf s box tb"
  "candidateOf s box (tb\<lparr>idB := k\<rparr>) = candidateOf s box tb"
  "candidateOf s box (clone tb) = candidateOf s box tb"
  by (simp_all add: candidateOf_def placedIn_def clone_def newBox_def)

lemma findBoxPosition_candidate:
  assumes "- 1 < mark (findBoxPosition s box tb)"
  shows "candidateOf s box (findBoxPosition s box tb)"
proof -
  obtain tb' best' where f: "foldl (fitStep s box) (tb\<lparr>mark := 0\<rparr>, - 1) (freeBoxes s) = (tb', best')"
    by (cases "foldl (fitStep s box) (tb\<lparr>mark := 0\<rparr>, - 1) (freeBoxes s)") auto
  from fit_foldl [OF f] have "- 1 < best' \<longrightarrow> candidateOf s box tb'"
    by simp
  with assms f show ?thesis
    by (simp add: findBoxPosition_def)
qed

lemma findBoxPosition_idB [simp]: "idB (findBoxPosition s box tb) = idB box"
  by (simp add: findBoxPosition_def split: prod.splits)

lemma scanStep_selected:
  assumes "scanStep s (tb, sc, best) k = (tb1, sc1, best1)"
    and "0 \<le> sc" and "k < length (boxes s)"
    and "\<forall>i bb. best = Some (i, bb) \<longrightarrow> selected s i bb"
  shows "0 \<le> sc1 \<and> (\<forall>i bb. best1 = Some (i, bb) \<longrightarrow> selected s i bb)"
proof (cases "needRemove (boxes s ! k)")
  case True
  with assms show ?thesis by (simp add: scanStep_def)
next
  case False
  let ?t = "findBoxPosition s (boxes s ! k) tb"
  show ?thesis
  proof (cases "sc < mark ?t")
    case True
    with assms(2) have "- 1 < mark ?t" by simp
    from findBoxPosition_candidate [OF this] False assms(3)
    have "selected s k (clone ?t)"
      by (simp add: selected_def) (simp add: clone_def newBox_def)
    with True False assms(1,2) show ?thesis
      by (auto simp: scanStep_def Let_def)
  next
    case no: False
    with False assms show ?thesis
      by (auto simp: scanStep_def Let_def)
  qed
qed

lemma scan_foldl_selected:
  assumes "foldl (scanStep s) (tb, sc, best) ks = (tb', sc', best')"
    and "0 \<le> sc" and "\<forall>k \<in> set ks. k < length (boxes s)"
    and "\<forall>i bb. best = Some (i, bb) \<longrightarrow> selected s i bb"
  shows "0 \<le> sc' \<and> (\<forall>i bb. best' = Some (i, bb) \<longrightarrow> selected s i bb)"
  using assms
proof (induction ks arbitrary: tb sc best)
  case Nil
  then show ?case by simp
next
  case (Cons k ks)
  obtain tb1 sc1 best1 where st: "scanStep s (tb, sc, best) k = (tb1, sc1, best1)"
    by (cases "scanStep s (tb, sc, best) k") auto
  from Cons.prems(3) have k: "k < length (boxes s)" by simp
  from scanStep_selected [OF st Cons.prems(2) k Cons.prems(4)]
  have "0 \<le> sc1" "\<forall>i bb. best1 = Some (i, bb) \<longrightarrow> selected s i bb"
    by simp_all
  moreover from Cons.prems(1) st have "foldl (scanStep s) (tb1, sc1, best1) ks = (tb', sc', best')"
    by simp
  ultimately show ?case
    using Cons.IH [of tb1 sc1 best1] Cons.prems(3) by simp
qed

lemma scanBoxes_selected:
  assumes "scanBoxes s tb = (tb', sc, Some (i, bb))"
  shows "selected s i bb"
  using scan_foldl_selected [of s tb 0 None "[0..<length (boxes s)]" tb' sc "Some (i, bb)"] assms
  by (simp add: scanBoxes_def)

section \<open>Placed rectangles do not overlap and lie in the container\<close>

definition inside :: "Packer \<Rightarrow> Box \<Rightarrow> bool" where
  "inside s b \<longleftrightarrow>
     0 \<le> left b \<and> 0 \<le> topB b \<and> right b \<le> containerWidth s \<and> bottom b \<le> containerHeight s"

text \<open>The invariant of the class \<open>Box\<close>: the size is the difference of the bounds.\<close>

definition coherent :: "Box \<Rightarrow> bool" where
  "coherent b \<longleftrightarrow> width b = right b - left b \<and> height b = bottom b - topB b"

text \<open>
  The invariant of the placement loop: every free box is coherent, lies in the container
  and overlaps no placed box; every placed box lies in the container; no two placed
  boxes overlap.
\<close>

definition packInv :: "Packer \<Rightarrow> bool" where
  "packInv s \<longleftrightarrow>
     (\<forall>f \<in> set (freeBoxes s).
        coherent f \<and> inside s f \<and> (\<forall>p \<in> set (packedBoxes s). \<not> isSeparated f p)) \<and>
     (\<forall>p \<in> set (packedBoxes s). inside s p) \<and>
     (\<forall>i j. i < j \<and> j < length (packedBoxes s) \<longrightarrow>
        \<not> isSeparated (packedBoxes s ! i) (packedBoxes s ! j))"

lemma isSeparated_sym: "isSeparated a b = isSeparated b a"
  by (auto simp: isSeparated_def)

lemma isContained_not_separated:
  "isContained g f \<Longrightarrow> \<not> isSeparated f p \<Longrightarrow> \<not> isSeparated g p"
  by (auto simp: isContained_def isSeparated_def)

lemma isContained_inside: "isContained g f \<Longrightarrow> inside s f \<Longrightarrow> inside s g"
  by (auto simp: isContained_def inside_def)

lemma strip_contained:
  "isSeparated f box \<Longrightarrow> g \<in> set (splitFreeBox f box) \<Longrightarrow> isContained g f"
  by (auto simp: splitFreeBox_def createFromCoord_def newBox_def isContained_def
      isSeparated_def split: if_splits)

lemma strip_coherent: "g \<in> set (splitFreeBox f box) \<Longrightarrow> coherent g"
  by (auto simp: splitFreeBox_def createFromCoord_def newBox_def coherent_def split: if_splits)

lemma placedIn_contained: "coherent f \<Longrightarrow> placedIn f w h bb \<Longrightarrow> isContained bb f"
  by (auto simp: coherent_def placedIn_def isContained_def)

lemma candidate_contained:
  assumes "candidateOf s box bb" and "\<forall>f \<in> set (freeBoxes s). coherent f"
  shows "\<exists>f \<in> set (freeBoxes s). isContained bb f"
proof -
  from assms(1) obtain f w h where f: "f \<in> set (freeBoxes s)" "placedIn f w h bb"
    by (auto simp: candidateOf_def)
  with assms(2) have "isContained bb f"
    by (auto intro: placedIn_contained)
  with f(1) show ?thesis ..
qed

lemma inside_commitBest [simp]: "inside (commitBest i bb s) = inside s"
  by (simp add: fun_eq_iff inside_def)

lemma packInv_commitBest:
  assumes inv: "packInv s" and sel: "selected s i bb"
  shows "packInv (commitBest i bb s)"
proof -
  from sel have "candidateOf s (boxes s ! i) bb"
    by (simp add: selected_def)
  with inv obtain f0 where f0: "f0 \<in> set (freeBoxes s)" "isContained bb f0"
    using candidate_contained [of s "boxes s ! i" bb] by (auto simp: packInv_def)
  have bb_in: "inside s bb"
    using inv f0 isContained_inside by (auto simp: packInv_def)
  have bb_old: "\<not> isSeparated p bb" if "p \<in> set (packedBoxes s)" for p
  proof -
    from inv f0 that have "\<not> isSeparated f0 p" by (auto simp: packInv_def)
    with f0(2) have "\<not> isSeparated bb p" by (rule isContained_not_separated)
    then show ?thesis by (simp add: isSeparated_sym)
  qed
  have free: "coherent g \<and> inside s g \<and> (\<forall>p \<in> set (packedBoxes s @ [bb]). \<not> isSeparated g p)"
    if g: "g \<in> set (freeBoxes (addPackedBox bb s))" for g
  proof -
    from g freeBoxes_addPackedBox [of bb s] consider
      (old) "g \<in> set (freeBoxes s)" "\<not> isSeparated g bb"
      | (strip) f where "f \<in> set (freeBoxes s)" "isSeparated f bb" "g \<in> set (splitFreeBox f bb)"
      by auto
    then show ?thesis
    proof cases
      case old
      with inv show ?thesis by (auto simp: packInv_def)
    next
      case strip
      from strip(2,3) have c: "isContained g f" by (rule strip_contained)
      from inv strip(1) have f: "inside s f" "\<forall>p \<in> set (packedBoxes s). \<not> isSeparated f p"
        by (auto simp: packInv_def)
      from c f(1) have "inside s g" by (rule isContained_inside)
      moreover have "coherent g" using strip(3) by (rule strip_coherent)
      moreover have "\<not> isSeparated g p" if "p \<in> set (packedBoxes s)" for p
        using c f(2) that isContained_not_separated by blast
      moreover have "\<not> isSeparated g bb"
        using strip(3) by (rule splitFreeBox_not_separated)
      ultimately show ?thesis by auto
    qed
  qed
  have pairs: "\<not> isSeparated ((packedBoxes s @ [bb]) ! k) ((packedBoxes s @ [bb]) ! j)"
    if "k < j" "j < length (packedBoxes s @ [bb])" for k j
  proof (cases "j < length (packedBoxes s)")
    case True
    with that inv show ?thesis by (simp add: packInv_def nth_append)
  next
    case False
    with that have j: "j = length (packedBoxes s)" and k: "k < length (packedBoxes s)"
      by simp_all
    from k have "packedBoxes s ! k \<in> set (packedBoxes s)" by simp
    from bb_old [OF this] j k show ?thesis by (simp add: nth_append)
  qed
  from inv bb_in have "\<forall>p \<in> set (packedBoxes s @ [bb]). inside s p"
    by (auto simp: packInv_def)
  with free pairs show ?thesis
    unfolding packInv_def by simp
qed

lemma packInv_prepare: "packInv (prepare s)"
  by (simp add: packInv_def coherent_def inside_def createFromCoord_def newBox_def)

lemma packInv_packLoop: "packInv s \<Longrightarrow> packInv (packLoop s tb)"
  by (rule packLoop_invariant) (auto intro: packInv_commitBest scanBoxes_selected)

lemma packInv_collectNotPlaced: "packInv (collectNotPlaced s) = packInv s"
  by (simp add: packInv_def inside_def)

lemma addBoxes_Nil [simp]: "addBoxes [] s = s"
  by (simp add: addBoxes_def)

lemma addBoxes_snoc [simp]:
  "addBoxes (adds @ [(w, h, i)]) s = addBox w h i (addBoxes adds s)"
  by (simp add: addBoxes_def)

lemma containerWidth_addBoxes [simp]: "containerWidth (addBoxes adds s) = containerWidth s"
proof (induction adds rule: rev_induct)
  case Nil
  show ?case by simp
next
  case (snoc a adds)
  then show ?case by (cases a) (simp add: addBox_def)
qed

lemma containerHeight_addBoxes [simp]: "containerHeight (addBoxes adds s) = containerHeight s"
proof (induction adds rule: rev_induct)
  case Nil
  show ?case by simp
next
  case (snoc a adds)
  then show ?case by (cases a) (simp add: addBox_def)
qed

lemma boxes_addBoxes:
  "boxes (addBoxes adds s) =
     boxes s @ map (\<lambda>(w, h, i). createFromSize (min w h) (max w h) i 0) adds"
proof (induction adds rule: rev_induct)
  case Nil
  show ?case by simp
next
  case (snoc a adds)
  then show ?case by (cases a) (simp add: addBox_def)
qed

lemma isPrepared_addBoxes: "isPrepared (addBoxes adds s) \<Longrightarrow> isPrepared s"
proof (induction adds rule: rev_induct)
  case Nil
  then show ?case by simp
next
  case (snoc a adds)
  then show ?case by (cases a) (simp add: addBox_def)
qed

text \<open>
  The inputs on which the arithmetic of the source is exact, so that the integer model
  is the code: integer container dimensions up to \<open>2^50\<close> and integer arguments of
  \<open>addBox\<close> up to \<open>2^53\<close> in magnitude. Then every number that \<open>pack\<close> computes (a
  coordinate inside the container, a size, a score, which is at most three times the
  half perimeter of the candidate) is an integer below \<open>2^53\<close>, which a double holds
  exactly.
\<close>

definition exactRange :: "int \<Rightarrow> int \<Rightarrow> (int \<times> int \<times> int) list \<Rightarrow> bool" where
  "exactRange cw ch adds \<longleftrightarrow>
     cw \<le> 2 ^ 50 \<and> ch \<le> 2 ^ 50 \<and>
     list_all (\<lambda>(w, h, i). \<bar>w\<bar> \<le> 2 ^ 53 \<and> \<bar>h\<bar> \<le> 2 ^ 53 \<and> \<bar>i\<bar> \<le> 2 ^ 53) adds"

text \<open>
  C1, as stated, fails on the code: the closed bounds of two placed rectangles may
  overlap. In a \<open>100 \<times> 100\<close> container two \<open>50 \<times> 100\<close> rectangles are placed side by
  side, and their closed intervals intersect on both axes (they share the edge
  \<open>x = 50\<close>).
\<close>

theorem C1_counterexample:
  "length (fst (pack (addBoxes [(50, 100, 1), (50, 100, 2)] (newPacker 100 100)))) = 2 \<and>
   closedIntervalsIntersect
     (fst (pack (addBoxes [(50, 100, 1), (50, 100, 2)] (newPacker 100 100))) ! 0)
     (fst (pack (addBoxes [(50, 100, 1), (50, 100, 2)] (newPacker 100 100))) ! 1)"
  by code_simp

text \<open>
  C1 (amended): on an engine constructed with positive integer container dimensions,
  after any sequence of \<open>addBox\<close> calls with integer arguments (all in the range where
  the arithmetic of the source is exact) and one \<open>pack()\<close>, the overlap test of the
  code, \<open>Box.isSeparated\<close>, is false on any two distinct placed rectangles (its
  comparisons are strict: the interiors are disjoint, the closed bounds may share an
  edge or a corner), and every placed rectangle lies in
  \<open>[0, containerWidth] \<times> [0, containerHeight]\<close>.
\<close>

theorem C1_placed_disjoint_inside:
  assumes "0 < cw" and "0 < ch" and "exactRange cw ch adds"
  shows "(\<forall>i j. i < length (fst (pack (addBoxes adds (newPacker cw ch)))) \<and>
             j < length (fst (pack (addBoxes adds (newPacker cw ch)))) \<and> i \<noteq> j \<longrightarrow>
           \<not> isSeparated (fst (pack (addBoxes adds (newPacker cw ch))) ! i)
                          (fst (pack (addBoxes adds (newPacker cw ch))) ! j)) \<and>
         (\<forall>p \<in> set (fst (pack (addBoxes adds (newPacker cw ch)))).
            0 \<le> left p \<and> 0 \<le> topB p \<and> right p \<le> cw \<and> bottom p \<le> ch)"
proof -
  define s0 where "s0 = addBoxes adds (newPacker cw ch)"
  have np: "\<not> isPrepared s0"
    using isPrepared_addBoxes [of adds "newPacker cw ch"] by (auto simp: s0_def newPacker_def)
  define s3 where "s3 = collectNotPlaced (packLoop (prepare s0) (newBox 0 0 0 0 0 0 0 0))"
  have pk: "pack s0 = (packedBoxes s3, s3)"
    using np by (simp add: pack_def Let_def s3_def)
  have inv: "packInv s3"
    unfolding s3_def by (simp add: packInv_collectNotPlaced packInv_packLoop packInv_prepare)
  have dims: "containerWidth s3 = cw" "containerHeight s3 = ch"
    using packLoop_frame [of "prepare s0" "newBox 0 0 0 0 0 0 0 0"]
    by (simp_all add: s3_def s0_def newPacker_def)
  have a: "\<not> isSeparated (packedBoxes s3 ! i) (packedBoxes s3 ! j)"
    if "i < length (packedBoxes s3)" "j < length (packedBoxes s3)" "i \<noteq> j" for i j
  proof (cases "i < j")
    case True
    with inv that show ?thesis by (simp add: packInv_def)
  next
    case False
    with that have "j < i" by simp
    with inv that have "\<not> isSeparated (packedBoxes s3 ! j) (packedBoxes s3 ! i)"
      by (simp add: packInv_def)
    then show ?thesis by (simp add: isSeparated_sym)
  qed
  have b: "0 \<le> left p \<and> 0 \<le> topB p \<and> right p \<le> cw \<and> bottom p \<le> ch"
    if "p \<in> set (packedBoxes s3)" for p
    using inv that dims by (auto simp: packInv_def inside_def)
  have eq: "fst (pack (addBoxes adds (newPacker cw ch))) = packedBoxes s3"
    using pk by (simp add: s0_def)
  show ?thesis
    unfolding eq using a b by blast
qed

text \<open>
  The instance of C1 on a \<open>100 \<times> 100\<close> container with two \<open>50 \<times> 100\<close> rectangles:
  both are placed, side by side.
\<close>

theorem C1_witness:
  "(0::int) < 100 \<and>
   exactRange 100 100 [(50, 100, 1), (50, 100, 2)] \<and>
   length (fst (pack (addBoxes [(50, 100, 1), (50, 100, 2)] (newPacker 100 100)))) = 2 \<and>
   \<not> isSeparated (fst (pack (addBoxes [(50, 100, 1), (50, 100, 2)] (newPacker 100 100))) ! 0)
                  (fst (pack (addBoxes [(50, 100, 1), (50, 100, 2)] (newPacker 100 100))) ! 1) \<and>
   0 \<le> left (fst (pack (addBoxes [(50, 100, 1), (50, 100, 2)] (newPacker 100 100))) ! 1) \<and>
   right (fst (pack (addBoxes [(50, 100, 1), (50, 100, 2)] (newPacker 100 100))) ! 1) \<le> 100"
proof -
  let ?ps = "fst (pack (addBoxes [(50, 100, 1), (50, 100, 2)] (newPacker 100 100)))"
  have pos: "(0::int) < 100" by simp
  have ex: "exactRange 100 100 [(50, 100, 1), (50, 100, 2)]"
    by (simp add: exactRange_def)
  have len: "length ?ps = 2" by code_simp
  note inst = C1_placed_disjoint_inside [OF pos pos ex]
  from len have "(0::nat) < length ?ps \<and> 1 < length ?ps \<and> (0::nat) \<noteq> 1"
    by simp
  with inst have sep: "\<not> isSeparated (?ps ! 0) (?ps ! 1)"
    by blast
  from len have "?ps ! 1 \<in> set ?ps"
    by simp
  with inst have "0 \<le> left (?ps ! 1) \<and> right (?ps ! 1) \<le> 100"
    by blast
  with pos ex len sep show ?thesis
    by blast
qed

section \<open>Where every added rectangle ends\<close>

lemma mset_insertSorted [simp]: "mset (insertSorted x ys) = add_mset x (mset ys)"
  by (induction ys) simp_all

lemma mset_sortBoxes [simp]: "mset (sortBoxes bs) = mset bs"
  by (induction bs) (simp_all add: sortBoxes_def)

lemma set_sortBoxes [simp]: "set (sortBoxes bs) = set bs"
  using mset_sortBoxes [of bs] by (metis set_mset_mset)

text \<open>
  What identifies a rectangle across the collections: its identifier and its two
  dimensions, whatever the orientation (a placed rectangle may be rotated).
\<close>

definition sizeKey :: "Box \<Rightarrow> int \<times> int \<times> int" where
  "sizeKey b = (idB b, min (width b) (height b), max (width b) (height b))"

lemma sizeKey_needRemove [simp]: "sizeKey (b\<lparr>needRemove := v\<rparr>) = sizeKey b"
  by (simp add: sizeKey_def)

lemma sizeKey_unmarked [simp]: "map sizeKey (unmarked bs) = map sizeKey bs"
  by (simp add: unmarked_def)

lemma selected_sizeKey: "selected s i bb \<Longrightarrow> sizeKey bb = sizeKey (boxes s ! i)"
  by (auto simp: selected_def candidateOf_def placedIn_def sizeKey_def)

lemma mset_marked_update:
  "i < length bs \<Longrightarrow> \<not> needRemove (bs ! i) \<Longrightarrow>
   mset (map sizeKey (filter needRemove (bs[i := (bs ! i)\<lparr>needRemove := True\<rparr>]))) =
     add_mset (sizeKey (bs ! i)) (mset (map sizeKey (filter needRemove bs)))"
proof (induction bs arbitrary: i)
  case Nil
  then show ?case by simp
next
  case (Cons b bs)
  then show ?case by (cases i) simp_all
qed

text \<open>The placed boxes are the boxes marked as placed, as multisets of keys.\<close>

definition accounted :: "Packer \<Rightarrow> bool" where
  "accounted s \<longleftrightarrow>
     mset (map sizeKey (packedBoxes s)) = mset (map sizeKey (filter needRemove (boxes s)))"

lemma accounted_commitBest:
  assumes "accounted s" and "selected s i bb"
  shows "accounted (commitBest i bb s)"
proof -
  from assms(2) have i: "i < length (boxes s)" "\<not> needRemove (boxes s ! i)"
    by (simp_all add: selected_def)
  from assms mset_marked_update [OF i] show ?thesis
    by (simp add: accounted_def selected_sizeKey)
qed

lemma accounted_packLoop: "accounted s \<Longrightarrow> accounted (packLoop s tb)"
  by (rule packLoop_invariant) (auto intro: accounted_commitBest scanBoxes_selected)

lemma mset_filter_split:
  "mset (map f (filter P xs)) + mset (map f (filter (\<lambda>x. \<not> P x) xs)) = mset (map f xs)"
  by (induction xs) simp_all

subsection \<open>Engine states reached by public calls\<close>

lemma run_invariant:
  assumes "P s" and "\<And>c t. c \<in> set calls \<Longrightarrow> P t \<Longrightarrow> P (step c t)"
  shows "P (run calls s)"
  using assms unfolding run_def
proof (induction calls arbitrary: s)
  case Nil
  then show ?case by simp
next
  case (Cons c calls)
  have "P (step c s)" using Cons.prems by simp
  moreover have "\<And>d t. d \<in> set calls \<Longrightarrow> P t \<Longrightarrow> P (step d t)"
    using Cons.prems(2) by simp
  ultimately show ?case
    using Cons.IH [of "step c s"] by simp
qed

lemma fullness_frame [simp]:
  "boxes (snd (fullness s)) = boxes s"
  "packedBoxes (snd (fullness s)) = packedBoxes s"
  "notPlacedBoxes (snd (fullness s)) = notPlacedBoxes s"
  "badBoxes (snd (fullness s)) = badBoxes s"
  "isPrepared (snd (fullness s)) = isPrepared s"
  "containerWidth (snd (fullness s)) = containerWidth s"
  "containerHeight (snd (fullness s)) = containerHeight s"
  by (simp_all add: fullness_def calculateFullness_def Let_def)

lemma pack_prepared:
  "isPrepared s \<Longrightarrow>
   pack s = (packedBoxes (packLoop s (newBox 0 0 0 0 0 0 0 0)),
             collectNotPlaced (packLoop s (newBox 0 0 0 0 0 0 0 0)))"
  by (simp add: pack_def Let_def)

lemma pack_unprepared: "\<not> isPrepared s \<Longrightarrow> pack s = pack (prepare s)"
  by (simp add: pack_def Let_def)

text \<open>No pending box carries a removal mark between two public calls.\<close>

definition unmarkedBoxes :: "Packer \<Rightarrow> bool" where
  "unmarkedBoxes s \<longleftrightarrow> (\<forall>b \<in> set (boxes s). \<not> needRemove b)"

lemma unmarkedBoxes_step: "unmarkedBoxes s \<Longrightarrow> unmarkedBoxes (step c s)"
proof (cases c)
  case (AddBox w h i)
  assume "unmarkedBoxes s"
  with AddBox show ?thesis
    by (auto simp: unmarkedBoxes_def addBox_def createFromSize_def newBox_def)
next
  case Pack
  have "boxes (snd (pack s)) = unmarked (boxes (packLoop (if isPrepared s then s else prepare s)
      (newBox 0 0 0 0 0 0 0 0)))"
    by (simp add: pack_def Let_def)
  with Pack show ?thesis
    by (auto simp: unmarkedBoxes_def unmarked_def)
next
  case Prepare
  assume "unmarkedBoxes s"
  with Prepare show ?thesis
    by (auto simp: unmarkedBoxes_def)
next
  case Clear
  then show ?thesis
    by (simp add: unmarkedBoxes_def clear_def reset_def)
next
  case (ResizeContainer w h)
  assume "unmarkedBoxes s"
  with ResizeContainer show ?thesis
    by (simp add: unmarkedBoxes_def resizeContainer_def)
next
  case ReadFullness
  assume "unmarkedBoxes s"
  with ReadFullness show ?thesis
    by (simp add: unmarkedBoxes_def)
qed

lemma unmarkedBoxes_run: "unmarkedBoxes (run calls (newPacker cw ch))"
proof (rule run_invariant)
  show "unmarkedBoxes (newPacker cw ch)"
    by (simp add: unmarkedBoxes_def newPacker_def)
next
  fix c t assume "unmarkedBoxes t"
  then show "unmarkedBoxes (step c t)" by (rule unmarkedBoxes_step)
qed

subsection \<open>Where every pending rectangle ends\<close>

lemma prepare_pack_accounting:
  assumes "\<forall>b \<in> set (boxes s). \<not> needRemove b"
  shows "mset (map sizeKey (packedBoxes (snd (pack (prepare s))))) +
         mset (map sizeKey (notPlacedBoxes (snd (pack (prepare s))))) +
         mset (map sizeKey (badBoxes (snd (pack (prepare s))))) = mset (map sizeKey (boxes s))"
proof -
  define s1 where "s1 = prepare s"
  define s2 where "s2 = packLoop s1 (newBox 0 0 0 0 0 0 0 0)"
  have pk: "snd (pack (prepare s)) = collectNotPlaced s2"
    by (simp add: pack_prepared s1_def s2_def)
  have "filter needRemove (boxes s1) = []"
    using assms by (auto simp: s1_def filter_empty_conv)
  then have "accounted s1"
    by (simp add: accounted_def s1_def)
  then have acc: "accounted s2"
    unfolding s2_def by (rule accounted_packLoop)
  have fr: "badBoxes s2 = badBoxes s1" "notPlacedBoxes s2 = notPlacedBoxes s1"
    "unmarked (boxes s2) = unmarked (boxes s1)"
    using packLoop_frame [of s1 "newBox 0 0 0 0 0 0 0 0"] by (simp_all add: s2_def)
  have "mset (map sizeKey (boxes s2)) = mset (map sizeKey (boxes s1))"
    using arg_cong [OF fr(3), of "map sizeKey"] by simp
  also have "\<dots> = mset (map sizeKey (filter (\<lambda>b. \<not> isBad s b) (boxes s)))"
    using arg_cong [OF mset_sortBoxes, of "image_mset sizeKey"] by (simp add: s1_def)
  finally have bx: "mset (map sizeKey (boxes s2)) =
      mset (map sizeKey (filter (\<lambda>b. \<not> isBad s b) (boxes s)))" .
  have "mset (map sizeKey (packedBoxes s2)) +
        mset (map sizeKey (filter (\<lambda>b. \<not> needRemove b) (boxes s2))) =
        mset (map sizeKey (boxes s2))"
    using acc mset_filter_split [of sizeKey needRemove "boxes s2"] by (simp add: accounted_def)
  moreover have "mset (map sizeKey (filter (\<lambda>b. \<not> isBad s b) (boxes s))) +
      mset (map sizeKey (filter (isBad s) (boxes s))) = mset (map sizeKey (boxes s))"
    using mset_filter_split [of sizeKey "isBad s" "boxes s"] by (simp add: add.commute)
  ultimately show ?thesis
    using bx by (simp add: pk fr s1_def)
qed

text \<open>
  C10, as stated, fails on the code. An engine that was packed before: in a \<open>10 \<times> 10\<close>
  container the rectangle \<open>20 \<times> 20\<close> is added and \<open>pack()\<close> rejects it; two more
  rectangles are added and \<open>pack()\<close> runs \<open>prepare\<close> again, which empties \<open>badBoxes\<close>
  while the rejected rectangle is not pending any more: three rectangles were added
  and the three collections hold two. And a new engine on which \<open>prepare()\<close> is called
  twice before the first \<open>pack()\<close>: two rectangles were added and the collections hold
  one.
\<close>

theorem C10_counterexample:
  "length (packedBoxes (run [AddBox 20 20 1, Pack, AddBox 1 1 2, AddBox 2 2 3, Pack]
      (newPacker 10 10))) +
   length (notPlacedBoxes (run [AddBox 20 20 1, Pack, AddBox 1 1 2, AddBox 2 2 3, Pack]
      (newPacker 10 10))) +
   length (badBoxes (run [AddBox 20 20 1, Pack, AddBox 1 1 2, AddBox 2 2 3, Pack]
      (newPacker 10 10))) = 2 \<and>
   length (packedBoxes (run [AddBox 20 20 1, AddBox 1 1 2, Prepare, Prepare, Pack]
      (newPacker 10 10))) +
   length (notPlacedBoxes (run [AddBox 20 20 1, AddBox 1 1 2, Prepare, Prepare, Pack]
      (newPacker 10 10))) +
   length (badBoxes (run [AddBox 20 20 1, AddBox 1 1 2, Prepare, Prepare, Pack]
      (newPacker 10 10))) = 1"
  by code_simp

text \<open>
  C10 (amended): on every engine state reached by public calls, \<open>prepare()\<close> followed
  by \<open>pack()\<close> leaves every rectangle that was pending (in \<open>boxes\<close>) when \<open>prepare\<close> ran
  in exactly one of the three outcome collections (as multisets of identifier and
  dimensions), and the three counts add up to the pending count \<open>boxesSize()\<close> at that
  moment; \<open>pack()\<close> alone does the same on an engine that is not prepared. On a new
  engine with \<open>n\<close> calls of \<open>addBox\<close> and then \<open>pack()\<close>, the pending rectangles are the
  \<open>n\<close> added ones.
\<close>

theorem C10_all_accounted:
  "mset (map sizeKey (packedBoxes (snd (pack (prepare (run calls (newPacker cw ch))))))) +
   mset (map sizeKey (notPlacedBoxes (snd (pack (prepare (run calls (newPacker cw ch))))))) +
   mset (map sizeKey (badBoxes (snd (pack (prepare (run calls (newPacker cw ch))))))) =
     mset (map sizeKey (boxes (run calls (newPacker cw ch)))) \<and>
   length (packedBoxes (snd (pack (prepare (run calls (newPacker cw ch)))))) +
   length (notPlacedBoxes (snd (pack (prepare (run calls (newPacker cw ch)))))) +
   length (badBoxes (snd (pack (prepare (run calls (newPacker cw ch)))))) =
     boxesSize (run calls (newPacker cw ch)) \<and>
   (\<not> isPrepared (run calls (newPacker cw ch)) \<longrightarrow>
      pack (run calls (newPacker cw ch)) = pack (prepare (run calls (newPacker cw ch)))) \<and>
   mset (map sizeKey (packedBoxes (snd (pack (addBoxes adds (newPacker cw ch)))))) +
   mset (map sizeKey (notPlacedBoxes (snd (pack (addBoxes adds (newPacker cw ch)))))) +
   mset (map sizeKey (badBoxes (snd (pack (addBoxes adds (newPacker cw ch)))))) =
     mset (map (\<lambda>(w, h, i). (i, min w h, max w h)) adds) \<and>
   length (packedBoxes (snd (pack (addBoxes adds (newPacker cw ch))))) +
   length (notPlacedBoxes (snd (pack (addBoxes adds (newPacker cw ch))))) +
   length (badBoxes (snd (pack (addBoxes adds (newPacker cw ch))))) = length adds"
proof -
  define t where "t = run calls (newPacker cw ch)"
  have "\<forall>b \<in> set (boxes t). \<not> needRemove b"
    using unmarkedBoxes_run [of calls cw ch] by (simp add: unmarkedBoxes_def t_def)
  from prepare_pack_accounting [OF this]
  have g: "mset (map sizeKey (packedBoxes (snd (pack (prepare t))))) +
         mset (map sizeKey (notPlacedBoxes (snd (pack (prepare t))))) +
         mset (map sizeKey (badBoxes (snd (pack (prepare t))))) = mset (map sizeKey (boxes t))" .
  from arg_cong [OF g, of size]
  have gl: "length (packedBoxes (snd (pack (prepare t)))) +
      length (notPlacedBoxes (snd (pack (prepare t)))) +
      length (badBoxes (snd (pack (prepare t)))) = boxesSize t"
    by (simp add: boxesSize_def)
  define s where "s = addBoxes adds (newPacker cw ch)"
  have bs: "boxes s = map (\<lambda>(w, h, i). createFromSize (min w h) (max w h) i 0) adds"
    by (simp add: s_def boxes_addBoxes newPacker_def)
  have np: "\<not> isPrepared s"
    using isPrepared_addBoxes [of adds "newPacker cw ch"] by (auto simp: s_def newPacker_def)
  have fl: "\<forall>b \<in> set (boxes s). \<not> needRemove b"
    by (auto simp: bs createFromSize_def newBox_def)
  have keys: "map sizeKey (boxes s) = map (\<lambda>(w, h, i). (i, min w h, max w h)) adds"
    by (auto simp: bs sizeKey_def createFromSize_def newBox_def)
  have ms: "mset (map sizeKey (packedBoxes (snd (pack s)))) +
         mset (map sizeKey (notPlacedBoxes (snd (pack s)))) +
         mset (map sizeKey (badBoxes (snd (pack s)))) =
         mset (map (\<lambda>(w, h, i). (i, min w h, max w h)) adds)"
    using prepare_pack_accounting [OF fl] pack_unprepared [OF np] by (simp add: keys)
  from arg_cong [OF ms, of size]
  have ml: "length (packedBoxes (snd (pack s))) + length (notPlacedBoxes (snd (pack s))) +
      length (badBoxes (snd (pack s))) = length adds"
    by simp
  from g gl ms ml pack_unprepared [of t] show ?thesis
    unfolding t_def s_def by blast
qed

text \<open>
  The instance of C10 on the engine of the counterexample, before its last \<open>pack()\<close>:
  the engine is not prepared, two rectangles are pending, and after \<open>pack()\<close> the three
  collections hold two rectangles.
\<close>

theorem C10_witness:
  "\<not> isPrepared (run [AddBox 20 20 1, Pack, AddBox 1 1 2, AddBox 2 2 3] (newPacker 10 10)) \<and>
   boxesSize (run [AddBox 20 20 1, Pack, AddBox 1 1 2, AddBox 2 2 3] (newPacker 10 10)) = 2 \<and>
   length (packedBoxes (snd (pack
     (run [AddBox 20 20 1, Pack, AddBox 1 1 2, AddBox 2 2 3] (newPacker 10 10))))) +
   length (notPlacedBoxes (snd (pack
     (run [AddBox 20 20 1, Pack, AddBox 1 1 2, AddBox 2 2 3] (newPacker 10 10))))) +
   length (badBoxes (snd (pack
     (run [AddBox 20 20 1, Pack, AddBox 1 1 2, AddBox 2 2 3] (newPacker 10 10))))) = 2"
proof -
  let ?t = "run [AddBox 20 20 1, Pack, AddBox 1 1 2, AddBox 2 2 3] (newPacker 10 10)"
  have np: "\<not> isPrepared ?t" by code_simp
  have n: "boxesSize ?t = 2" by code_simp
  note inst = C10_all_accounted [of "[AddBox 20 20 1, Pack, AddBox 1 1 2, AddBox 2 2 3]" 10 10 "[]"]
  from inst np have "pack ?t = pack (prepare ?t)" by blast
  moreover from inst have "length (packedBoxes (snd (pack (prepare ?t)))) +
      length (notPlacedBoxes (snd (pack (prepare ?t)))) +
      length (badBoxes (snd (pack (prepare ?t)))) = boxesSize ?t"
    by blast
  ultimately show ?thesis
    using np n by simp
qed

section \<open>Rejected rectangles\<close>

text \<open>Two boxes of the same size, in the same or in the other orientation.\<close>

definition sameSize :: "Box \<Rightarrow> Box \<Rightarrow> bool" where
  "sameSize p b \<longleftrightarrow>
     (width p = width b \<and> height p = height b) \<or> (width p = height b \<and> height p = width b)"

lemma isBad_sameSize: "sameSize p b \<Longrightarrow> isBad s b \<Longrightarrow> isBad s p"
  by (auto simp: sameSize_def isBad_def)

lemma isBad_needRemove [simp]: "isBad s (b\<lparr>needRemove := v\<rparr>) = isBad s b"
  by (simp add: isBad_def)

lemma isBad_commitBest [simp]: "isBad (commitBest i bb s) = isBad s"
  by (simp add: fun_eq_iff isBad_def)

text \<open>No pending box and no placed box has a size that \<open>filterBadBoxes\<close> rejects.\<close>

definition noneBad :: "Packer \<Rightarrow> bool" where
  "noneBad s \<longleftrightarrow>
     (\<forall>c \<in> set (boxes s). \<not> isBad s c) \<and> (\<forall>p \<in> set (packedBoxes s). \<not> isBad s p)"

lemma selected_sameSize: "selected s i bb \<Longrightarrow> sameSize bb (boxes s ! i)"
  by (auto simp: selected_def candidateOf_def placedIn_def sameSize_def)

lemma noneBad_commitBest:
  assumes "noneBad s" and "selected s i bb"
  shows "noneBad (commitBest i bb s)"
proof -
  from assms(2) have i: "i < length (boxes s)"
    by (simp add: selected_def)
  with assms(1) have "\<not> isBad s (boxes s ! i)"
    by (simp add: noneBad_def)
  with selected_sameSize [OF assms(2)] have bb: "\<not> isBad s bb"
    using isBad_sameSize [of "boxes s ! i" bb s] by (auto simp: sameSize_def)
  have "\<not> isBad s c" if "c \<in> set ((boxes s)[i := (boxes s ! i)\<lparr>needRemove := True\<rparr>])" for c
  proof -
    from that have "c = (boxes s ! i)\<lparr>needRemove := True\<rparr> \<or> c \<in> set (boxes s)"
      using set_update_subset_insert [of "boxes s" i] by fastforce
    with assms(1) i show ?thesis
      by (auto simp: noneBad_def)
  qed
  with assms(1) bb show ?thesis
    by (auto simp: noneBad_def)
qed

lemma noneBad_packLoop: "noneBad s \<Longrightarrow> noneBad (packLoop s tb)"
  by (rule packLoop_invariant) (auto intro: noneBad_commitBest scanBoxes_selected)

lemma noneBad_prepare: "noneBad (prepare s)"
  by (simp add: noneBad_def isBad_def)

text \<open>
  The state of a rejected rectangle \<open>b\<close> after a \<open>pack()\<close>: it is in \<open>badBoxes\<close>, and no
  pending, placed or unplaced box has a size that is rejected.
\<close>

definition rejectedInv :: "Box \<Rightarrow> Packer \<Rightarrow> bool" where
  "rejectedInv b s \<longleftrightarrow>
     isPrepared s \<and> isBad s b \<and> b \<in> set (badBoxes s) \<and> noneBad s \<and>
     (\<forall>u \<in> set (notPlacedBoxes s). \<not> isBad s u)"

lemma isBad_same_container:
  "containerWidth s' = containerWidth s \<Longrightarrow> containerHeight s' = containerHeight s \<Longrightarrow>
   isBad s' = isBad s"
  by (simp add: fun_eq_iff isBad_def)

lemma collect_after_loop:
  assumes nb: "noneBad s1" and prep: "isPrepared s1" and bad: "isBad s1 b"
    and inb: "b \<in> set (badBoxes s1)" and np: "\<forall>u \<in> set (notPlacedBoxes s1). \<not> isBad s1 u"
  shows "rejectedInv b (collectNotPlaced (packLoop s1 tb))"
proof -
  define s2 where "s2 = packLoop s1 tb"
  have fr: "badBoxes s2 = badBoxes s1" "notPlacedBoxes s2 = notPlacedBoxes s1"
    "isPrepared s2 = isPrepared s1"
    "containerWidth s2 = containerWidth s1" "containerHeight s2 = containerHeight s1"
    using packLoop_frame [of s1 tb] by (simp_all add: s2_def)
  have same: "isBad s2 = isBad s1"
    by (rule isBad_same_container) (simp_all add: fr)
  have same': "isBad (collectNotPlaced s2) = isBad s1"
    by (rule isBad_same_container) (simp_all add: fr)
  have nb2: "noneBad s2"
    unfolding s2_def using nb by (rule noneBad_packLoop)
  then have "noneBad (collectNotPlaced s2)"
    by (auto simp: noneBad_def same same' unmarked_def)
  moreover have "\<forall>u \<in> set (notPlacedBoxes (collectNotPlaced s2)). \<not> isBad s1 u"
    using np nb2 by (auto simp: fr noneBad_def same)
  ultimately show ?thesis
    using prep bad inb fr unfolding rejectedInv_def s2_def [symmetric] same' by simp
qed

lemma rejectedInv_pack: "rejectedInv b s \<Longrightarrow> rejectedInv b (snd (pack s))"
  using collect_after_loop [of s b "newBox 0 0 0 0 0 0 0 0"]
  by (simp add: rejectedInv_def pack_def Let_def)

lemma isBad_packTimes: "isBad (packTimes k s) = isBad s"
proof (induction k)
  case 0
  show ?case by simp
next
  case (Suc k)
  have "containerWidth (snd (pack t)) = containerWidth t \<and>
        containerHeight (snd (pack t)) = containerHeight t" for t
    using packLoop_frame [of "prepare t" "newBox 0 0 0 0 0 0 0 0"]
      packLoop_frame [of t "newBox 0 0 0 0 0 0 0 0"]
    by (simp add: pack_def Let_def)
  then have "isBad (snd (pack (packTimes k s))) = isBad (packTimes k s)"
    by (intro isBad_same_container) simp_all
  with Suc show ?case by simp
qed

subsection \<open>Rejected rectangles over sequences of calls\<close>

text \<open>
  No placed and no unplaced box has a size that \<open>filterBadBoxes\<close> rejects, and on a
  prepared engine no pending box has.
\<close>

definition safeInv :: "Packer \<Rightarrow> bool" where
  "safeInv s \<longleftrightarrow>
     (\<forall>p \<in> set (packedBoxes s). \<not> isBad s p) \<and>
     (\<forall>u \<in> set (notPlacedBoxes s). \<not> isBad s u) \<and>
     (isPrepared s \<longrightarrow> (\<forall>c \<in> set (boxes s). \<not> isBad s c))"

lemma safe_after_loop:
  assumes nb: "noneBad s1" and np: "\<forall>u \<in> set (notPlacedBoxes s1). \<not> isBad s1 u"
  shows "safeInv (collectNotPlaced (packLoop s1 tb))"
proof -
  define s2 where "s2 = packLoop s1 tb"
  have fr: "notPlacedBoxes s2 = notPlacedBoxes s1"
    "containerWidth s2 = containerWidth s1" "containerHeight s2 = containerHeight s1"
    using packLoop_frame [of s1 tb] by (simp_all add: s2_def)
  have same: "isBad s2 = isBad s1"
    by (rule isBad_same_container) (simp_all add: fr)
  have same': "isBad (collectNotPlaced s2) = isBad s1"
    by (rule isBad_same_container) (simp_all add: fr)
  have nb2: "noneBad s2"
    unfolding s2_def using nb by (rule noneBad_packLoop)
  have 1: "\<forall>p \<in> set (packedBoxes (collectNotPlaced s2)). \<not> isBad s1 p"
    using nb2 by (simp add: noneBad_def same)
  have 2: "\<forall>u \<in> set (notPlacedBoxes (collectNotPlaced s2)). \<not> isBad s1 u"
    using np nb2 by (auto simp: fr noneBad_def same)
  have 3: "\<forall>c \<in> set (boxes (collectNotPlaced s2)). \<not> isBad s1 c"
    using nb2 by (auto simp: noneBad_def same unmarked_def)
  from 1 2 3 show ?thesis
    unfolding safeInv_def s2_def [symmetric] same' by blast
qed

lemma safeInv_pack: "safeInv s \<Longrightarrow> safeInv (snd (pack s))"
proof (cases "isPrepared s")
  case True
  assume "safeInv s"
  with True have "noneBad s" "\<forall>u \<in> set (notPlacedBoxes s). \<not> isBad s u"
    by (simp_all add: safeInv_def noneBad_def)
  from safe_after_loop [OF this] True show ?thesis
    by (simp add: pack_prepared)
next
  case False
  have "\<forall>u \<in> set (notPlacedBoxes (prepare s)). \<not> isBad (prepare s) u"
    by simp
  from safe_after_loop [OF noneBad_prepare this] False show ?thesis
    by (simp add: pack_def Let_def)
qed

lemma safeInv_prepare: "safeInv (prepare s)"
  using noneBad_prepare [of s] by (simp add: safeInv_def noneBad_def)

lemma safeInv_step:
  assumes "\<not> isResize c" and "safeInv s"
  shows "safeInv (step c s)"
proof (cases c)
  case (AddBox w h i)
  have "isBad (addBox w h i s) = isBad s"
    by (rule isBad_same_container) (simp_all add: addBox_def)
  with assms(2) AddBox show ?thesis
    by (simp add: safeInv_def) (simp add: addBox_def)
next
  case Pack
  with assms(2) show ?thesis by (simp add: safeInv_pack)
next
  case Prepare
  then show ?thesis by (simp add: safeInv_prepare)
next
  case Clear
  then show ?thesis by (simp add: safeInv_def clear_def reset_def)
next
  case (ResizeContainer w h)
  with assms(1) show ?thesis by simp
next
  case ReadFullness
  have "isBad (snd (fullness s)) = isBad s"
    by (rule isBad_same_container) simp_all
  with assms(2) ReadFullness show ?thesis
    by (simp add: safeInv_def)
qed

lemma container_step:
  "\<not> isResize c \<Longrightarrow>
   containerWidth (step c s) = containerWidth s \<and> containerHeight (step c s) = containerHeight s"
proof (cases c)
  case Pack
  have "containerWidth (snd (pack s)) = containerWidth s \<and>
        containerHeight (snd (pack s)) = containerHeight s"
    using packLoop_frame [of "prepare s" "newBox 0 0 0 0 0 0 0 0"]
      packLoop_frame [of s "newBox 0 0 0 0 0 0 0 0"]
    by (simp add: pack_def Let_def)
  with Pack show ?thesis by simp
qed (simp_all add: addBox_def clear_def reset_def)

lemma safe_run:
  assumes "noResize calls"
  shows "safeInv (run calls (newPacker cw ch)) \<and>
         containerWidth (run calls (newPacker cw ch)) = cw \<and>
         containerHeight (run calls (newPacker cw ch)) = ch"
proof (rule run_invariant)
  show "safeInv (newPacker cw ch) \<and> containerWidth (newPacker cw ch) = cw \<and>
        containerHeight (newPacker cw ch) = ch"
    by (simp add: safeInv_def newPacker_def)
next
  fix c t
  assume c: "c \<in> set calls"
    and t: "safeInv t \<and> containerWidth t = cw \<and> containerHeight t = ch"
  from assms c have nr: "\<not> isResize c"
    by (simp add: noResize_def list_all_iff)
  from safeInv_step [OF nr] container_step [OF nr, of t] t
  show "safeInv (step c t) \<and> containerWidth (step c t) = cw \<and> containerHeight (step c t) = ch"
    by simp
qed

lemma rejectedInv_prepare:
  assumes "isBad s b" and "b \<in> set (boxes s)"
  shows "rejectedInv b (prepare s)"
proof -
  have "isBad (prepare s) = isBad s"
    by (rule isBad_same_container) simp_all
  with assms noneBad_prepare [of s] show ?thesis
    by (simp add: rejectedInv_def)
qed

lemma rejectedInv_prepare_packTimes:
  assumes "isBad s b" and "b \<in> set (boxes s)"
  shows "rejectedInv b (packTimes k (prepare s))"
proof (induction k)
  case 0
  from rejectedInv_prepare [OF assms] show ?case by simp
next
  case (Suc k)
  from rejectedInv_pack [OF this] show ?case by simp
qed

lemma packTimes_unprepared:
  "\<not> isPrepared s \<Longrightarrow> packTimes (Suc k) s = packTimes (Suc k) (prepare s)"
  by (induction k) (simp_all add: pack_unprepared)

text \<open>
  C8, as stated, fails on the code. In a \<open>10 \<times> 10\<close> container the rectangle \<open>20 \<times> 20\<close>
  is in \<open>badBoxes\<close> after \<open>pack()\<close>; after one more \<open>addBox\<close> and \<open>pack()\<close> it is not:
  \<open>prepare\<close> ran again, \<open>reset\<close> emptied \<open>badBoxes\<close>, and the rectangle had left
  \<open>boxes\<close> at the first preparation. The same after \<open>prepare(); prepare(); pack()\<close>.
\<close>

theorem C8_counterexample:
  "createFromSize 20 20 1 0
     \<in> set (badBoxes (run [AddBox 20 20 1, Pack] (newPacker 10 10))) \<and>
   createFromSize 20 20 1 0
     \<notin> set (badBoxes (run [AddBox 20 20 1, Pack, AddBox 1 1 2, Pack] (newPacker 10 10))) \<and>
   createFromSize 20 20 1 0
     \<notin> set (badBoxes (run [AddBox 20 20 1, Prepare, Prepare, Pack] (newPacker 10 10)))"
  by code_simp

text \<open>
  C8 (amended): a rectangle added with an integer width and height, one of them
  non-positive or exceeding both container dimensions, is in \<open>badBoxes\<close> once \<open>prepare\<close>
  has run after the \<open>addBox\<close> (called directly, or by the \<open>pack()\<close> that follows; from
  any engine state, with any further \<open>addBox\<close> calls before), and it stays there through
  any number of \<open>pack()\<close> calls made directly after; in these states it is not in
  \<open>notPlacedBoxes\<close> and no placed rectangle has its size, in either orientation. And
  whatever public calls are made on an engine, as long as the container is not resized,
  such a rectangle is never in \<open>notPlacedBoxes\<close> and no placed rectangle has its size.
  (A later run of \<open>prepare\<close> empties \<open>badBoxes\<close>; the rectangle is then in no
  collection.) \<open>pack\<close> is a total function here: the source has no \<open>throw\<close> and every
  loop of it ends.
\<close>

theorem C8_bad_rejected:
  assumes "w \<le> 0 \<or> h \<le> 0 \<or> (cw < w \<and> ch < w) \<or> (cw < h \<and> ch < h)"
    and "containerWidth s = cw" and "containerHeight s = ch"
  shows "createFromSize (min w h) (max w h) i 0
           \<in> set (badBoxes (packTimes k (prepare (addBoxes others (addBox w h i s))))) \<and>
         createFromSize (min w h) (max w h) i 0
           \<notin> set (notPlacedBoxes (packTimes k (prepare (addBoxes others (addBox w h i s))))) \<and>
         (\<forall>p \<in> set (packedBoxes (packTimes k (prepare (addBoxes others (addBox w h i s))))).
            \<not> sameSize p (createFromSize (min w h) (max w h) i 0)) \<and>
         packTimes (Suc k) (addBoxes others (addBox w h i s)) =
           packTimes (Suc k) (prepare (addBoxes others (addBox w h i s))) \<and>
         (noResize calls \<longrightarrow>
            createFromSize (min w h) (max w h) i 0
              \<notin> set (notPlacedBoxes (run calls (newPacker cw ch))) \<and>
            (\<forall>p \<in> set (packedBoxes (run calls (newPacker cw ch))).
               \<not> sameSize p (createFromSize (min w h) (max w h) i 0)))"
proof -
  define b where "b = createFromSize (min w h) (max w h) i 0"
  define s0 where "s0 = addBoxes others (addBox w h i s)"
  have dims: "containerWidth s0 = cw" "containerHeight s0 = ch"
    using assms(2,3) by (simp_all add: s0_def addBox_def)
  have np: "\<not> isPrepared s0"
    using isPrepared_addBoxes [of others "addBox w h i s"] by (auto simp: s0_def addBox_def)
  have bad: "isBad s0 b"
    using assms(1) dims
    by (auto simp: isBad_def b_def createFromSize_def newBox_def min_def max_def)
  have "b \<in> set (boxes s0)"
    by (simp add: s0_def boxes_addBoxes addBox_def b_def)
  from rejectedInv_prepare_packTimes [OF bad this, of k]
  have inv: "rejectedInv b (packTimes k (prepare s0))" .
  have "isBad (packTimes k (prepare s0)) = isBad (prepare s0)"
    by (rule isBad_packTimes)
  also have "\<dots> = isBad s0"
    by (rule isBad_same_container) simp_all
  finally have same: "isBad (packTimes k (prepare s0)) = isBad s0" .
  from inv have 1: "b \<in> set (badBoxes (packTimes k (prepare s0)))"
    by (simp add: rejectedInv_def)
  from inv bad have 2: "b \<notin> set (notPlacedBoxes (packTimes k (prepare s0)))"
    unfolding rejectedInv_def same by blast
  have 3: "\<not> sameSize p b" if "p \<in> set (packedBoxes (packTimes k (prepare s0)))" for p
    using inv that bad isBad_sameSize [of p b s0]
    unfolding rejectedInv_def noneBad_def same by blast
  have 4: "packTimes (Suc k) s0 = packTimes (Suc k) (prepare s0)"
    using np by (rule packTimes_unprepared)
  have 5: "b \<notin> set (notPlacedBoxes (run calls (newPacker cw ch))) \<and>
      (\<forall>p \<in> set (packedBoxes (run calls (newPacker cw ch))). \<not> sameSize p b)"
    if nr: "noResize calls"
  proof -
    define t where "t = run calls (newPacker cw ch)"
    from safe_run [OF nr, of cw ch]
    have safe: "safeInv t" and td: "containerWidth t = cw" "containerHeight t = ch"
      by (simp_all add: t_def)
    have "isBad t = isBad s0"
      by (rule isBad_same_container) (simp_all add: td dims)
    with bad have bt: "isBad t b" by simp
    from safe bt have "b \<notin> set (notPlacedBoxes t)"
      unfolding safeInv_def by blast
    moreover have "\<not> sameSize p b" if "p \<in> set (packedBoxes t)" for p
      using safe that bt isBad_sameSize [of p b t] unfolding safeInv_def by blast
    ultimately show ?thesis
      unfolding t_def by blast
  qed
  from 1 2 3 4 5 show ?thesis
    unfolding b_def [symmetric] s0_def [symmetric] by blast
qed

text \<open>
  The instance of C8 on a \<open>10 \<times> 10\<close> container: the rectangle \<open>20 \<times> 3\<close> (its width
  exceeds both dimensions) is added before a \<open>4 \<times> 4\<close> rectangle; after \<open>prepare()\<close> and
  \<open>pack()\<close> it is rejected and the \<open>4 \<times> 4\<close> rectangle is the only placed one; after a
  further \<open>addBox\<close> and \<open>pack()\<close> it is still not in \<open>notPlacedBoxes\<close>.
\<close>

theorem C8_witness:
  "((10::int) < 20 \<and> (10::int) < 20) \<and>
   containerWidth (newPacker 10 10) = 10 \<and> containerHeight (newPacker 10 10) = 10 \<and>
   noResize [AddBox 20 3 7, AddBox 4 4 8, Pack, AddBox 1 1 9, Pack] \<and>
   createFromSize (min 20 3) (max 20 3) 7 0
     \<in> set (badBoxes
          (packTimes 1 (prepare (addBoxes [(4, 4, 8)] (addBox 20 3 7 (newPacker 10 10)))))) \<and>
   createFromSize (min 20 3) (max 20 3) 7 0
     \<notin> set (notPlacedBoxes
          (packTimes 1 (prepare (addBoxes [(4, 4, 8)] (addBox 20 3 7 (newPacker 10 10)))))) \<and>
   map idB (packedBoxes
     (packTimes 1 (prepare (addBoxes [(4, 4, 8)] (addBox 20 3 7 (newPacker 10 10)))))) = [8] \<and>
   createFromSize (min 20 3) (max 20 3) 7 0
     \<notin> set (notPlacedBoxes
          (run [AddBox 20 3 7, AddBox 4 4 8, Pack, AddBox 1 1 9, Pack] (newPacker 10 10))) \<and>
   map idB (packedBoxes
     (run [AddBox 20 3 7, AddBox 4 4 8, Pack, AddBox 1 1 9, Pack] (newPacker 10 10))) = [8, 9]"
proof -
  have h: "(10::int) < 20 \<and> (10::int) < 20"
    by simp
  then have h1: "(20::int) \<le> 0 \<or> (3::int) \<le> 0 \<or> ((10::int) < 20 \<and> (10::int) < 20) \<or>
      ((10::int) < 3 \<and> (10::int) < 3)"
    by blast
  have h2: "containerWidth (newPacker 10 10) = 10" "containerHeight (newPacker 10 10) = 10"
    by (simp_all add: newPacker_def)
  have nr: "noResize [AddBox 20 3 7, AddBox 4 4 8, Pack, AddBox 1 1 9, Pack]"
    by (simp add: noResize_def)
  note inst = C8_bad_rejected [OF h1 h2, of 7 1 "[(4, 4, 8)]"
      "[AddBox 20 3 7, AddBox 4 4 8, Pack, AddBox 1 1 9, Pack]"]
  have ids: "map idB (packedBoxes
     (packTimes 1 (prepare (addBoxes [(4, 4, 8)] (addBox 20 3 7 (newPacker 10 10)))))) = [8]"
    "map idB (packedBoxes
     (run [AddBox 20 3 7, AddBox 4 4 8, Pack, AddBox 1 1 9, Pack] (newPacker 10 10))) = [8, 9]"
    by code_simp+
  from h h2 nr inst ids show ?thesis
    by blast
qed

section \<open>Calling \<open>pack()\<close> twice\<close>

text \<open>
  C5 fails on the code. A \<open>10 \<times> 10\<close> container with the rectangles \<open>6 \<times> 6\<close> (id 1),
  \<open>6 \<times> 6\<close> (id 2) and \<open>1 \<times> 1\<close> (id 3): the first \<open>pack()\<close> places 1 and 3 and leaves
  2 unplaced. \<open>pack\<close> ends by clearing every \<open>needRemove\<close> mark, so the second
  \<open>pack()\<close> finds \<open>boxes.length !== packedBoxes.length\<close>, scans all three boxes
  again, places rectangle 3 a second time at another position, and pushes 1 and 2 to
  \<open>notPlacedBoxes\<close>, which still holds 2 from the first call.
\<close>

theorem C5_pack_twice:
  "map (\<lambda>b. (idB b, left b, topB b, right b, bottom b))
     (fst (pack (addBoxes [(6, 6, 1), (6, 6, 2), (1, 1, 3)] (newPacker 10 10)))) =
     [(1, 0, 0, 6, 6), (3, 0, 6, 1, 7)] \<and>
   map idB (notPlacedBoxes
     (snd (pack (addBoxes [(6, 6, 1), (6, 6, 2), (1, 1, 3)] (newPacker 10 10))))) = [2] \<and>
   map (\<lambda>b. (idB b, left b, topB b, right b, bottom b))
     (fst (pack (snd (pack (addBoxes [(6, 6, 1), (6, 6, 2), (1, 1, 3)] (newPacker 10 10)))))) =
     [(1, 0, 0, 6, 6), (3, 0, 6, 1, 7), (3, 6, 0, 7, 1)] \<and>
   map idB (notPlacedBoxes
     (snd (pack (snd (pack (addBoxes [(6, 6, 1), (6, 6, 2), (1, 1, 3)] (newPacker 10 10))))))) =
     [2, 1, 2]"
  by code_simp

text \<open>
  C7 fails on the code, for the same reason. With a second \<open>1 \<times> 1\<close> rectangle (id 4)
  the first \<open>pack()\<close> places 1, 3 and 4. The second \<open>pack()\<close> places rectangle 3 again,
  which makes the two lengths equal and ends the loop, and then pushes every box
  without a mark to \<open>notPlacedBoxes\<close>: among them rectangle 4, for which the free box
  \<open>(1,6)-(10,10)\<close> is large enough.
\<close>

theorem C7_unplaced_fits:
  "map idB (notPlacedBoxes
     (snd (pack (addBoxes [(6, 6, 1), (6, 6, 2), (1, 1, 3), (1, 1, 4)] (newPacker 10 10))))) = [2] \<and>
   createFromSize 1 1 4 0 \<in> set (notPlacedBoxes (snd (pack (snd (pack
     (addBoxes [(6, 6, 1), (6, 6, 2), (1, 1, 3), (1, 1, 4)] (newPacker 10 10))))))) \<and>
   createFromCoord 1 6 10 10 0 0 \<in> set (freeBoxes (snd (pack (snd (pack
     (addBoxes [(6, 6, 1), (6, 6, 2), (1, 1, 3), (1, 1, 4)] (newPacker 10 10))))))) \<and>
   width (createFromCoord 1 6 10 10 0 0) \<ge> width (createFromSize 1 1 4 0) \<and>
   height (createFromCoord 1 6 10 10 0 0) \<ge> height (createFromSize 1 1 4 0)"
  by code_simp

section \<open>The free boxes hold every free rectangle\<close>

text \<open>
  A free rectangle of the engine: integer bounds, positive extent, inside the container,
  overlapping no placed box. And a box that holds a rectangle.
\<close>

definition freeRect :: "Packer \<Rightarrow> int \<Rightarrow> int \<Rightarrow> int \<Rightarrow> int \<Rightarrow> bool" where
  "freeRect s l t r b \<longleftrightarrow>
     l < r \<and> t < b \<and> 0 \<le> l \<and> 0 \<le> t \<and> r \<le> containerWidth s \<and> b \<le> containerHeight s \<and>
     (\<forall>p \<in> set (packedBoxes s). \<not> (left p < r \<and> l < right p \<and> topB p < b \<and> t < bottom p))"

definition holds :: "Box \<Rightarrow> int \<Rightarrow> int \<Rightarrow> int \<Rightarrow> int \<Rightarrow> bool" where
  "holds f l t r b \<longleftrightarrow> left f \<le> l \<and> topB f \<le> t \<and> r \<le> right f \<and> b \<le> bottom f"

definition covering :: "Packer \<Rightarrow> bool" where
  "covering s \<longleftrightarrow>
     (\<forall>l t r b. freeRect s l t r b \<longrightarrow> (\<exists>f \<in> set (freeBoxes s). holds f l t r b))"

lemma holds_contained: "holds g l t r b \<Longrightarrow> isContained g g' \<Longrightarrow> holds g' l t r b"
  by (auto simp: holds_def isContained_def)

lemma strip_holds:
  assumes "isSeparated f bb" and "holds f l t r b" and "l < r" and "t < b"
    and "\<not> (left bb < r \<and> l < right bb \<and> topB bb < b \<and> t < bottom bb)"
  shows "\<exists>g \<in> set (splitFreeBox f bb). holds g l t r b"
proof -
  from assms(1) have ov: "left bb < right f" "left f < right bb"
    "topB bb < bottom f" "topB f < bottom bb"
    by (auto simp: isSeparated_def)
  from assms(2) have h: "left f \<le> l" "topB f \<le> t" "r \<le> right f" "b \<le> bottom f"
    by (auto simp: holds_def)
  from assms(5) consider (above) "b \<le> topB bb" | (below) "bottom bb \<le> t"
    | (leftof) "r \<le> left bb" | (rightof) "right bb \<le> l"
    by linarith
  then show ?thesis
  proof cases
    case above
    with h assms(4) ov
    have "createFromCoord (left f) (topB f) (right f) (topB bb) 0 0 \<in> set (splitFreeBox f bb)"
      by (simp add: splitFreeBox_def)
    moreover have "holds (createFromCoord (left f) (topB f) (right f) (topB bb) 0 0) l t r b"
      using h above by (simp add: holds_def createFromCoord_def newBox_def)
    ultimately show ?thesis by blast
  next
    case below
    with h assms(4)
    have "createFromCoord (left f) (bottom bb) (right f) (bottom f) 0 0 \<in> set (splitFreeBox f bb)"
      by (simp add: splitFreeBox_def)
    moreover have "holds (createFromCoord (left f) (bottom bb) (right f) (bottom f) 0 0) l t r b"
      using h below by (simp add: holds_def createFromCoord_def newBox_def)
    ultimately show ?thesis by blast
  next
    case leftof
    with h assms(3) ov
    have "createFromCoord (left f) (topB f) (left bb) (bottom f) 0 0 \<in> set (splitFreeBox f bb)"
      by (simp add: splitFreeBox_def)
    moreover have "holds (createFromCoord (left f) (topB f) (left bb) (bottom f) 0 0) l t r b"
      using h leftof by (simp add: holds_def createFromCoord_def newBox_def)
    ultimately show ?thesis by blast
  next
    case rightof
    with h assms(3)
    have "createFromCoord (right bb) (topB f) (right f) (bottom f) 0 0 \<in> set (splitFreeBox f bb)"
      by (simp add: splitFreeBox_def)
    moreover have "holds (createFromCoord (right bb) (topB f) (right f) (bottom f) 0 0) l t r b"
      using h rightof by (simp add: holds_def createFromCoord_def newBox_def)
    ultimately show ?thesis by blast
  qed
qed

lemma covering_addPackedBox:
  assumes cov: "covering s" and un: "\<forall>f \<in> set (freeBoxes s). \<not> needRemove f"
    and fr: "freeRect (addPackedBox bb s) l t r b"
  shows "\<exists>f \<in> set (freeBoxes (addPackedBox bb s)). holds f l t r b"
proof -
  from fr have pos: "l < r" "t < b"
    and nbb: "\<not> (left bb < r \<and> l < right bb \<and> topB bb < b \<and> t < bottom bb)"
    and old: "freeRect s l t r b"
    by (auto simp: freeRect_def)
  from cov old obtain f where f: "f \<in> set (freeBoxes s)" "holds f l t r b"
    unfolding covering_def by blast
  let ?fs1 = "splitLoop bb 0 (freeBoxes s)"
  have "\<exists>g. g \<in> set ?fs1 \<and> \<not> needRemove g \<and> holds g l t r b"
  proof (cases "isSeparated f bb")
    case False
    with f un have "f \<in> set ?fs1" "\<not> needRemove f"
      by (force simp: splitLoop_0 markSplit_def)+
    with f(2) show ?thesis by blast
  next
    case True
    from strip_holds [OF True f(2) pos nbb]
    obtain g where g: "g \<in> set (splitFreeBox f bb)" "holds g l t r b" by blast
    with f(1) True have "g \<in> set ?fs1"
      by (auto simp: splitLoop_0)
    with g strip_unmarked show ?thesis by blast
  qed
  then obtain g where g: "g \<in> set ?fs1" "\<not> needRemove g" "holds g l t r b" by blast
  with survivorsCover_pruneOuter [of ?fs1 0]
  obtain g' where "g' \<in> set (pruneOuter 0 ?fs1)" "\<not> needRemove g'" "isContained g g'"
    unfolding survivorsCover_def by blast
  with g(3) holds_contained show ?thesis
    by (auto simp: addPackedBox_def Let_def)
qed

section \<open>A rectangle left unplaced by the first \<open>pack()\<close> fits nowhere\<close>

subsection \<open>The score of a candidate\<close>

text \<open>What one placed box adds to the score of the candidate \<open>(l, t, r, b)\<close>.\<close>

definition contrib :: "int \<Rightarrow> int \<Rightarrow> int \<Rightarrow> int \<Rightarrow> Box \<Rightarrow> int" where
  "contrib l t r b q =
     (if left q = r \<or> right q = l then commonIntervalLength (topB q) (bottom q) t b else 0) +
     (if topB q = b \<or> bottom q = t then commonIntervalLength (left q) (right q) l r else 0)"

lemma commonIntervalLength_nonneg:
  "a1 \<le> a2 \<Longrightarrow> b1 \<le> b2 \<Longrightarrow> 0 \<le> commonIntervalLength a1 a2 b1 b2"
  by (simp add: commonIntervalLength_def)

lemma commonIntervalLength_pos:
  "a1 < a2 \<Longrightarrow> b1 < b2 \<Longrightarrow> a1 < b2 \<Longrightarrow> b1 < a2 \<Longrightarrow> 0 < commonIntervalLength a1 a2 b1 b2"
  by (simp add: commonIntervalLength_def)

lemma scoreStep_contrib: "scoreStep l t r b sc q = sc + contrib l t r b q"
  by (simp add: scoreStep_def contrib_def Let_def)

lemma foldl_scoreStep:
  "foldl (scoreStep l t r b) sc ps = sc + sum_list (map (contrib l t r b) ps)"
  by (induction ps arbitrary: sc) (simp_all add: scoreStep_contrib)

lemma contrib_nonneg:
  "l < r \<Longrightarrow> t < b \<Longrightarrow> left q < right q \<Longrightarrow> topB q < bottom q \<Longrightarrow> 0 \<le> contrib l t r b q"
  by (simp add: contrib_def commonIntervalLength_nonneg)

lemma sum_list_map_nonneg:
  fixes c :: "'a \<Rightarrow> int"
  shows "\<forall>p \<in> set ps. 0 \<le> c p \<Longrightarrow> 0 \<le> sum_list (map c ps)"
  by (induction ps) simp_all

lemma member_le_sum_list_int:
  fixes c :: "'a \<Rightarrow> int"
  shows "q \<in> set ps \<Longrightarrow> \<forall>p \<in> set ps. 0 \<le> c p \<Longrightarrow> c q \<le> sum_list (map c ps)"
proof (induction ps)
  case Nil
  then show ?case by simp
next
  case (Cons p ps)
  have "0 \<le> sum_list (map c ps)"
    using Cons.prems(2) by (simp add: sum_list_map_nonneg)
  with Cons show ?case by auto
qed

lemma score_zero:
  assumes sc: "calculateScore s l t r b \<le> 0" and pos: "l < r" "t < b"
    and pk: "\<forall>p \<in> set (packedBoxes s). left p < right p \<and> topB p < bottom p"
  shows "t \<noteq> 0"
    and "\<forall>q \<in> set (packedBoxes s). bottom q = t \<longrightarrow> commonIntervalLength (left q) (right q) l r \<le> 0"
proof -
  define score1 where "score1 =
    (if t = 0 \<or> b = containerHeight s
     then (if l = 0 \<or> r = containerWidth s then b - t else 0) + (r - l)
     else (if l = 0 \<or> r = containerWidth s then b - t else 0))"
  have eq: "calculateScore s l t r b = score1 + sum_list (map (contrib l t r b) (packedBoxes s))"
    by (simp add: calculateScore_def Let_def foldl_scoreStep score1_def)
  have nn: "\<forall>p \<in> set (packedBoxes s). 0 \<le> contrib l t r b p"
    using pos pk by (simp add: contrib_nonneg)
  then have sum: "0 \<le> sum_list (map (contrib l t r b) (packedBoxes s))"
    by (rule sum_list_map_nonneg)
  have s1: "0 \<le> score1"
    using pos by (simp add: score1_def)
  from eq sc sum s1 have z: "score1 = 0" "sum_list (map (contrib l t r b) (packedBoxes s)) = 0"
    by linarith+
  from z(1) pos show "t \<noteq> 0"
    by (auto simp: score1_def split: if_splits)
  show "\<forall>q \<in> set (packedBoxes s). bottom q = t \<longrightarrow>
      commonIntervalLength (left q) (right q) l r \<le> 0"
  proof (intro ballI impI)
    fix q assume q: "q \<in> set (packedBoxes s)" "bottom q = t"
    from member_le_sum_list_int [OF q(1) nn] z(2) have "contrib l t r b q \<le> 0"
      by simp
    moreover have "0 \<le> commonIntervalLength (topB q) (bottom q) t b"
      using pk q(1) pos by (intro commonIntervalLength_nonneg) auto
    then have "0 \<le> (if left q = r \<or> right q = l
                 then commonIntervalLength (topB q) (bottom q) t b else 0)"
      by simp
    ultimately show "commonIntervalLength (left q) (right q) l r \<le> 0"
      using q(2) by (simp add: contrib_def)
  qed
qed

subsection \<open>The invariant with the free rectangles\<close>

definition fullInv :: "Packer \<Rightarrow> bool" where
  "fullInv s \<longleftrightarrow>
     packInv s \<and> covering s \<and>
     (\<forall>f \<in> set (freeBoxes s). \<not> needRemove f) \<and>
     (\<forall>p \<in> set (packedBoxes s). left p < right p \<and> topB p < bottom p) \<and>
     (\<forall>c \<in> set (boxes s). 0 < width c \<and> 0 < height c)"

lemma freeRect_commitBest: "freeRect (commitBest i bb s) = freeRect (addPackedBox bb s)"
  by (simp add: fun_eq_iff freeRect_def)

lemma fullInv_commitBest:
  assumes inv: "fullInv s" and sel: "selected s i bb"
  shows "fullInv (commitBest i bb s)"
proof -
  from inv have pi: "packInv s" and cov: "covering s"
    and un: "\<forall>f \<in> set (freeBoxes s). \<not> needRemove f"
    and pp: "\<forall>p \<in> set (packedBoxes s). left p < right p \<and> topB p < bottom p"
    and bp: "\<forall>c \<in> set (boxes s). 0 < width c \<and> 0 < height c"
    by (simp_all add: fullInv_def)
  from sel have i: "i < length (boxes s)" by (simp add: selected_def)
  with bp have wh: "0 < width (boxes s ! i)" "0 < height (boxes s ! i)" by simp_all
  from sel wh have bbpos: "left bb < right bb \<and> topB bb < bottom bb"
    by (auto simp: selected_def candidateOf_def placedIn_def)
  have 1: "packInv (commitBest i bb s)"
    using pi sel by (rule packInv_commitBest)
  have 2: "covering (commitBest i bb s)"
    unfolding covering_def freeRect_commitBest
    using covering_addPackedBox [OF cov un] by simp
  have 3: "\<forall>f \<in> set (freeBoxes (commitBest i bb s)). \<not> needRemove f"
    by (simp add: addPackedBox_def Let_def)
  have 4: "\<forall>p \<in> set (packedBoxes (commitBest i bb s)). left p < right p \<and> topB p < bottom p"
    using pp bbpos by auto
  have 5: "0 < width c \<and> 0 < height c" if "c \<in> set (boxes (commitBest i bb s))" for c
  proof -
    from that have "c = (boxes s ! i)\<lparr>needRemove := True\<rparr> \<or> c \<in> set (boxes s)"
      using set_update_subset_insert [of "boxes s" i] by fastforce
    with bp wh show ?thesis by auto
  qed
  from 1 2 3 4 5 show ?thesis
    unfolding fullInv_def by blast
qed

lemma fullInv_prepare: "fullInv (prepare s)"
proof -
  have "covering (prepare s)"
    by (auto simp: covering_def freeRect_def holds_def createFromCoord_def newBox_def)
  moreover have "\<forall>c \<in> set (boxes (prepare s)). 0 < width c \<and> 0 < height c"
    by (auto simp: isBad_def)
  ultimately show ?thesis
    by (simp add: fullInv_def packInv_prepare createFromCoord_def newBox_def)
qed

lemma fullInv_packLoop: "fullInv s \<Longrightarrow> fullInv (packLoop s tb)"
  by (rule packLoop_invariant) (auto intro: fullInv_commitBest scanBoxes_selected)

subsection \<open>A candidate without score has a higher candidate\<close>

lemma zero_score_descent:
  assumes inv: "fullInv s" and f: "f \<in> set (freeBoxes s)"
    and fit: "w \<le> width f" "h \<le> height f" and pos: "0 < w" "0 < h"
    and sc: "calculateScore s (left f) (topB f) (left f + w) (topB f + h) \<le> 0"
  shows "\<exists>g \<in> set (freeBoxes s). w \<le> width g \<and> h \<le> height g \<and> topB g < topB f"
proof -
  from inv have pi: "packInv s" and cov: "covering s"
    and pp: "\<forall>p \<in> set (packedBoxes s). left p < right p \<and> topB p < bottom p"
    by (simp_all add: fullInv_def)
  from pi f have cf: "coherent f" and inf: "inside s f"
    and nf: "\<forall>p \<in> set (packedBoxes s). \<not> isSeparated f p"
    by (auto simp: packInv_def)
  from cf fit have rb: "left f + w \<le> right f" "topB f + h \<le> bottom f"
    by (auto simp: coherent_def)
  from score_zero [OF sc _ _ pp] pos
  have t0: "topB f \<noteq> 0"
    and edge: "\<forall>q \<in> set (packedBoxes s). bottom q = topB f \<longrightarrow>
        commonIntervalLength (left q) (right q) (left f) (left f + w) \<le> 0"
    by simp_all
  have "\<not> (left p < left f + w \<and> left f < right p \<and> topB p < topB f + h \<and> topB f - 1 < bottom p)"
    if p: "p \<in> set (packedBoxes s)" for p
  proof
    assume a: "left p < left f + w \<and> left f < right p \<and> topB p < topB f + h \<and>
               topB f - 1 < bottom p"
    from nf p have "\<not> isSeparated f p" by blast
    with a rb have "bottom p \<le> topB f"
      by (auto simp: isSeparated_def)
    with a have bt: "bottom p = topB f" by simp
    from pp p have "left p < right p" by blast
    with a pos have "0 < commonIntervalLength (left p) (right p) (left f) (left f + w)"
      by (intro commonIntervalLength_pos) simp_all
    with edge p bt show False by force
  qed
  with inf rb pos t0 have "freeRect s (left f) (topB f - 1) (left f + w) (topB f + h)"
    by (auto simp: freeRect_def inside_def)
  with cov obtain g where g: "g \<in> set (freeBoxes s)"
      "holds g (left f) (topB f - 1) (left f + w) (topB f + h)"
    unfolding covering_def by blast
  from pi g(1) have "coherent g" by (auto simp: packInv_def)
  with g(2) have "w \<le> width g \<and> h \<le> height g \<and> topB g < topB f"
    by (auto simp: coherent_def holds_def)
  with g(1) show ?thesis by blast
qed

lemma no_fit:
  assumes inv: "fullInv s" and pos: "0 < w" "0 < h"
    and all: "\<forall>f \<in> set (freeBoxes s). w \<le> width f \<and> h \<le> height f \<longrightarrow>
        calculateScore s (left f) (topB f) (left f + w) (topB f + h) \<le> 0"
    and f: "f \<in> set (freeBoxes s)"
  shows "\<not> (w \<le> width f \<and> h \<le> height f)"
proof -
  have "f \<in> set (freeBoxes s) \<Longrightarrow> nat (topB f) = n \<Longrightarrow> \<not> (w \<le> width f \<and> h \<le> height f)"
    for n f
  proof (induction n arbitrary: f rule: less_induct)
    case (less n)
    show ?case
    proof
      assume fit: "w \<le> width f \<and> h \<le> height f"
      with all less.prems(1)
      have "calculateScore s (left f) (topB f) (left f + w) (topB f + h) \<le> 0" by blast
      from zero_score_descent [OF inv less.prems(1) _ _ pos this] fit
      obtain g where g: "g \<in> set (freeBoxes s)" "w \<le> width g \<and> h \<le> height g"
          "topB g < topB f"
        by blast
      from inv g(1) have "0 \<le> topB g"
        by (auto simp: fullInv_def packInv_def inside_def)
      with g(3) less.prems(2) have "nat (topB g) < n" by simp
      from less.IH [OF this g(1) refl] g(2) show False by blast
    qed
  qed
  from this [OF f refl] show ?thesis .
qed

subsection \<open>What a round of the loop that selects nothing says\<close>

lemma tryFit_score:
  assumes "tryFit s f w h (tb, best) = (tb1, best1)"
  shows "best \<le> best1" and "w \<le> width f \<and> h \<le> height f \<longrightarrow>
     calculateScore s (left f) (topB f) (left f + w) (topB f + h) \<le> best1"
  using assms by (auto simp: tryFit_def Let_def split: if_splits)

lemma fitStep_score:
  assumes "fitStep s box (tb, best) f = (tb1, best1)"
  shows "best \<le> best1"
    and "width box \<le> width f \<and> height box \<le> height f \<longrightarrow>
      calculateScore s (left f) (topB f) (left f + width box) (topB f + height box) \<le> best1"
    and "height box \<le> width f \<and> width box \<le> height f \<longrightarrow>
      calculateScore s (left f) (topB f) (left f + height box) (topB f + width box) \<le> best1"
proof -
  obtain tb0 best0 where a: "tryFit s f (width box) (height box) (tb, best) = (tb0, best0)"
    by (cases "tryFit s f (width box) (height box) (tb, best)") auto
  with assms have b: "tryFit s f (height box) (width box) (tb0, best0) = (tb1, best1)"
    by (simp add: fitStep_def)
  from tryFit_score [OF a] tryFit_score [OF b]
  show "best \<le> best1"
    and "width box \<le> width f \<and> height box \<le> height f \<longrightarrow>
      calculateScore s (left f) (topB f) (left f + width box) (topB f + height box) \<le> best1"
    and "height box \<le> width f \<and> width box \<le> height f \<longrightarrow>
      calculateScore s (left f) (topB f) (left f + height box) (topB f + width box) \<le> best1"
    by linarith+
qed

text \<open>The score bound that a free box \<open>f\<close> puts on \<open>bestScore\<close>, in both orientations.\<close>

definition scoresBelow :: "Packer \<Rightarrow> Box \<Rightarrow> int \<Rightarrow> Box \<Rightarrow> bool" where
  "scoresBelow s box m f \<longleftrightarrow>
     (width box \<le> width f \<and> height box \<le> height f \<longrightarrow>
        calculateScore s (left f) (topB f) (left f + width box) (topB f + height box) \<le> m) \<and>
     (height box \<le> width f \<and> width box \<le> height f \<longrightarrow>
        calculateScore s (left f) (topB f) (left f + height box) (topB f + width box) \<le> m)"

lemma scoresBelow_mono: "scoresBelow s box m f \<Longrightarrow> m \<le> m' \<Longrightarrow> scoresBelow s box m' f"
  by (auto simp: scoresBelow_def)

lemma fit_foldl_score:
  assumes "foldl (fitStep s box) (tb, best) fs = (tb', best')"
  shows "best \<le> best' \<and> (\<forall>f \<in> set fs. scoresBelow s box best' f)"
  using assms
proof (induction fs arbitrary: tb best)
  case Nil
  then show ?case by simp
next
  case (Cons f fs)
  obtain tb1 best1 where st: "fitStep s box (tb, best) f = (tb1, best1)"
    by (cases "fitStep s box (tb, best) f") auto
  with Cons.prems have "foldl (fitStep s box) (tb1, best1) fs = (tb', best')"
    by simp
  from Cons.IH [OF this]
  have ih: "best1 \<le> best'" "\<forall>f \<in> set fs. scoresBelow s box best' f" by simp_all
  from fitStep_score [OF st] have "best \<le> best1" "scoresBelow s box best1 f"
    by (simp_all add: scoresBelow_def)
  with ih show ?case
    by (auto intro: scoresBelow_mono)
qed

lemma findBoxPosition_scores:
  assumes "f \<in> set (freeBoxes s)"
  shows "scoresBelow s box (mark (findBoxPosition s box tb)) f"
proof -
  obtain tb' best' where fo: "foldl (fitStep s box) (tb\<lparr>mark := 0\<rparr>, - 1) (freeBoxes s) = (tb', best')"
    by (cases "foldl (fitStep s box) (tb\<lparr>mark := 0\<rparr>, - 1) (freeBoxes s)") auto
  from fit_foldl_score [OF fo] assms have "scoresBelow s box best' f" by blast
  with fo show ?thesis
    by (simp add: findBoxPosition_def)
qed

lemma scan_foldl_Some:
  "foldl (scanStep s) (tb, sc, Some x) ks = (tb', sc', best') \<Longrightarrow> best' \<noteq> None"
proof (induction ks arbitrary: tb sc x)
  case Nil
  then show ?case by auto
next
  case (Cons k ks)
  obtain tb1 sc1 x1 where "scanStep s (tb, sc, Some x) k = (tb1, sc1, Some x1)"
    by (cases "scanStep s (tb, sc, Some x) k")
      (auto simp: scanStep_def Let_def split: if_splits)
  with Cons show ?case by simp
qed

lemma scan_foldl_None:
  assumes "foldl (scanStep s) (tb, sc, best) ks = (tb', sc', None)"
    and "k \<in> set ks" and "\<not> needRemove (boxes s ! k)"
  shows "\<exists>t. mark (findBoxPosition s (boxes s ! k) t) \<le> sc"
  using assms
proof (induction ks arbitrary: tb best)
  case Nil
  then show ?case by simp
next
  case (Cons j ks)
  let ?t = "findBoxPosition s (boxes s ! j) tb"
  show ?case
  proof (cases "needRemove (boxes s ! j)")
    case True
    then have "scanStep s (tb, sc, best) j = (tb, sc, best)"
      by (simp add: scanStep_def)
    with Cons.prems(1) have fo: "foldl (scanStep s) (tb, sc, best) ks = (tb', sc', None)"
      by simp
    from True Cons.prems(2,3) have "k \<in> set ks"
      by auto
    from Cons.IH [OF fo this Cons.prems(3)] show ?thesis .
  next
    case False
    show ?thesis
    proof (cases "sc < mark ?t")
      case True
      with False have "scanStep s (tb, sc, best) j = (?t, mark ?t, Some (j, clone ?t))"
        by (simp add: scanStep_def Let_def)
      with Cons.prems(1)
      have "foldl (scanStep s) (?t, mark ?t, Some (j, clone ?t)) ks = (tb', sc', None)"
        by simp
      from scan_foldl_Some [OF this] show ?thesis by simp
    next
      case le: False
      with False have "scanStep s (tb, sc, best) j = (?t, sc, best)"
        by (simp add: scanStep_def Let_def)
      with Cons.prems(1) have fo: "foldl (scanStep s) (?t, sc, best) ks = (tb', sc', None)"
        by simp
      show ?thesis
      proof (cases "k = j")
        case True
        with le show ?thesis by (auto simp: not_less)
      next
        case False
        with Cons.prems(2) have "k \<in> set ks" by simp
        from Cons.IH [OF fo this Cons.prems(3)] show ?thesis .
      qed
    qed
  qed
qed

lemma scanBoxes_None:
  assumes "scanBoxes s tb = (tb', sc', None)" and "k < length (boxes s)"
    and "\<not> needRemove (boxes s ! k)"
  shows "\<exists>t. mark (findBoxPosition s (boxes s ! k) t) \<le> 0"
  using scan_foldl_None [of s tb 0 None "[0..<length (boxes s)]" tb' sc' k] assms
  by (simp add: scanBoxes_def)

text \<open>How the \<open>while\<close> loop ends: the two lengths are equal, or a scan selected nothing.\<close>

lemma packLoop_exit:
  "length (boxes (packLoop s tb)) = length (packedBoxes (packLoop s tb)) \<or>
   (\<exists>t t' sc. scanBoxes (packLoop s tb) t = (t', sc, None))"
proof (induction s tb rule: packLoop.induct)
  case (1 s tb)
  show ?case
  proof (cases "length (boxes s) = length (packedBoxes s)")
    case True
    then show ?thesis by (simp add: packLoop_unfold)
  next
    case False
    obtain tb' sc best where sb: "scanBoxes s tb = (tb', sc, best)"
      by (cases "scanBoxes s tb") auto
    show ?thesis
    proof (cases best)
      case None
      with sb False have "packLoop s tb = s" by (simp add: packLoop_unfold)
      with sb None show ?thesis by auto
    next
      case (Some ib)
      obtain i bb where ib: "ib = (i, bb)" by (cases ib) auto
      have "packLoop s tb = packLoop (commitBest i bb s) tb'"
        using sb False Some ib by (simp add: packLoop_unfold)
      moreover have "length (boxes (packLoop (commitBest i bb s) tb')) =
            length (packedBoxes (packLoop (commitBest i bb s) tb')) \<or>
          (\<exists>t t' sc. scanBoxes (packLoop (commitBest i bb s) tb') t = (t', sc, None))"
        using "1.IH" False sb Some ib by auto
      ultimately show ?thesis by simp
    qed
  qed
qed

subsection \<open>The first \<open>pack()\<close>\<close>

lemma unplaced_fit_nowhere:
  assumes inv: "fullInv s" and acc: "accounted s"
    and u: "u \<in> set (boxes (packLoop s tb))" "\<not> needRemove u"
    and f: "f \<in> set (freeBoxes (packLoop s tb))"
  shows "\<not> (width u \<le> width f \<and> height u \<le> height f) \<and>
         \<not> (height u \<le> width f \<and> width u \<le> height f)"
proof -
  define s2 where "s2 = packLoop s tb"
  have inv2: "fullInv s2"
    unfolding s2_def using inv by (rule fullInv_packLoop)
  have acc2: "accounted s2"
    unfolding s2_def using acc by (rule accounted_packLoop)
  from u obtain k where k: "k < length (boxes s2)" "boxes s2 ! k = u"
    by (auto simp: in_set_conv_nth s2_def)
  have "length (filter needRemove (boxes s2)) < length (boxes s2)"
    using u by (intro length_filter_less [of u]) (simp_all add: s2_def)
  moreover from acc2
  have "size (mset (map sizeKey (packedBoxes s2))) =
        size (mset (map sizeKey (filter needRemove (boxes s2))))"
    by (simp only: accounted_def)
  then have "length (packedBoxes s2) = length (filter needRemove (boxes s2))"
    by (simp only: size_mset length_map)
  ultimately have "length (boxes s2) \<noteq> length (packedBoxes s2)"
    by simp
  with packLoop_exit [of s tb] obtain t t' sc where "scanBoxes s2 t = (t', sc, None)"
    by (auto simp: s2_def)
  from scanBoxes_None [OF this k(1)] k(2) u(2)
  obtain t0 where m: "mark (findBoxPosition s2 u t0) \<le> 0"
    by auto
  have below: "scoresBelow s2 u 0 g" if "g \<in> set (freeBoxes s2)" for g
    using findBoxPosition_scores [OF that, of u t0] m by (rule scoresBelow_mono)
  from inv2 u(1) have pos: "0 < width u" "0 < height u"
    by (auto simp: fullInv_def s2_def)
  from f have f2: "f \<in> set (freeBoxes s2)" by (simp add: s2_def)
  have "\<not> (width u \<le> width f \<and> height u \<le> height f)"
    using below by (intro no_fit [OF inv2 pos _ f2]) (simp add: scoresBelow_def)
  moreover have "\<not> (height u \<le> width f \<and> width u \<le> height f)"
    using below by (intro no_fit [OF inv2 pos(2,1) _ f2]) (simp add: scoresBelow_def)
  ultimately show ?thesis ..
qed

text \<open>
  After a \<open>pack()\<close> that runs \<open>prepare\<close> (the engine is not prepared, as after every
  \<open>addBox\<close>, and no pending box carries a mark, as after every \<open>pack()\<close> and every
  \<open>addBox\<close>), no free box is large enough for a rectangle of \<open>notPlacedBoxes\<close>, in
  either orientation. C7 fails only on a \<open>pack()\<close> of an engine that is already
  prepared.
\<close>

lemma pack_unplaced_fit_nowhere:
  assumes np: "\<not> isPrepared s" and fl: "\<forall>b \<in> set (boxes s). \<not> needRemove b"
    and u: "u \<in> set (notPlacedBoxes (snd (pack s)))"
    and f: "f \<in> set (freeBoxes (snd (pack s)))"
  shows "\<not> (width f \<ge> width u \<and> height f \<ge> height u) \<and>
         \<not> (width f \<ge> height u \<and> height f \<ge> width u)"
proof -
  define s2 where "s2 = packLoop (prepare s) (newBox 0 0 0 0 0 0 0 0)"
  from np have pk: "snd (pack s) = collectNotPlaced s2"
    by (simp add: pack_def Let_def s2_def)
  from fl have "filter needRemove (boxes (prepare s)) = []"
    by (auto simp: filter_empty_conv)
  then have acc: "accounted (prepare s)"
    by (simp add: accounted_def)
  have "notPlacedBoxes s2 = []"
    using packLoop_frame [of "prepare s" "newBox 0 0 0 0 0 0 0 0"] by (simp add: s2_def)
  with u have u2: "u \<in> set (boxes s2)" "\<not> needRemove u"
    by (simp_all add: pk)
  from f have f2: "f \<in> set (freeBoxes s2)"
    by (simp add: pk)
  from unplaced_fit_nowhere [OF fullInv_prepare acc u2 [unfolded s2_def] f2 [unfolded s2_def]]
  show ?thesis by simp
qed

lemma first_pack_unplaced_fit_nowhere:
  assumes "u \<in> set (notPlacedBoxes (snd (pack (addBoxes adds (newPacker cw ch)))))"
    and "f \<in> set (freeBoxes (snd (pack (addBoxes adds (newPacker cw ch)))))"
  shows "\<not> (width f \<ge> width u \<and> height f \<ge> height u) \<and>
         \<not> (width f \<ge> height u \<and> height f \<ge> width u)"
proof (rule pack_unplaced_fit_nowhere [OF _ _ assms])
  show "\<not> isPrepared (addBoxes adds (newPacker cw ch))"
    using isPrepared_addBoxes [of adds "newPacker cw ch"] by (auto simp: newPacker_def)
  show "\<forall>b \<in> set (boxes (addBoxes adds (newPacker cw ch))). \<not> needRemove b"
    by (auto simp: boxes_addBoxes newPacker_def createFromSize_def newBox_def)
qed

section \<open>Free boxes have positive extent when a placement is committed\<close>

text \<open>
  The hypothesis of C2 on the free box holds at every call of \<open>addPackedBox\<close>: either
  all free boxes have positive extent, or none has a positive width and height (the
  container had a non-positive dimension when \<open>prepare\<close> ran), and then no pending box
  fits and nothing is committed.
\<close>

definition extentInv :: "Packer \<Rightarrow> bool" where
  "extentInv s \<longleftrightarrow>
     (\<forall>f \<in> set (freeBoxes s). coherent f) \<and>
     (\<forall>c \<in> set (boxes s). 0 < width c \<and> 0 < height c) \<and>
     ((\<forall>f \<in> set (freeBoxes s). left f < right f \<and> topB f < bottom f) \<or>
      (\<forall>f \<in> set (freeBoxes s). width f \<le> 0 \<or> height f \<le> 0))"

lemma strip_positive:
  assumes "isSeparated f bb" and "left f < right f" and "topB f < bottom f"
    and "g \<in> set (splitFreeBox f bb)"
  shows "left g < right g \<and> topB g < bottom g"
  using assms
  by (auto simp: splitFreeBox_def createFromCoord_def newBox_def isSeparated_def
      split: if_splits)

lemma selected_positive_free:
  assumes inv: "extentInv s" and sel: "selected s i bb"
  shows "\<forall>f \<in> set (freeBoxes s). left f < right f \<and> topB f < bottom f"
proof -
  from sel have i: "i < length (boxes s)" and c: "candidateOf s (boxes s ! i) bb"
    by (simp_all add: selected_def)
  from inv i have wh: "0 < width (boxes s ! i)" "0 < height (boxes s ! i)"
    by (simp_all add: extentInv_def)
  from c wh obtain f where "f \<in> set (freeBoxes s)" "0 < width f" "0 < height f"
    by (fastforce simp: candidateOf_def placedIn_def)
  then have "\<not> (\<forall>f \<in> set (freeBoxes s). width f \<le> 0 \<or> height f \<le> 0)"
    by force
  with inv show ?thesis
    unfolding extentInv_def by blast
qed

lemma extentInv_commitBest:
  assumes inv: "extentInv s" and sel: "selected s i bb"
  shows "extentInv (commitBest i bb s)"
proof -
  from selected_positive_free [OF inv sel]
  have pf: "\<forall>f \<in> set (freeBoxes s). left f < right f \<and> topB f < bottom f" .
  from sel have i: "i < length (boxes s)" by (simp add: selected_def)
  have a: "coherent g \<and> left g < right g \<and> topB g < bottom g"
    if "g \<in> set (freeBoxes (addPackedBox bb s))" for g
  proof -
    from that freeBoxes_addPackedBox [of bb s] consider
      (old) "g \<in> set (freeBoxes s)"
      | (strip) f where "f \<in> set (freeBoxes s)" "isSeparated f bb" "g \<in> set (splitFreeBox f bb)"
      by auto
    then show ?thesis
    proof cases
      case old
      with inv pf show ?thesis by (simp add: extentInv_def)
    next
      case strip
      with pf have "left f < right f" "topB f < bottom f" by simp_all
      from strip_positive [OF strip(2) this strip(3)] strip_coherent [OF strip(3)]
      show ?thesis by simp
    qed
  qed
  have b: "0 < width c \<and> 0 < height c" if "c \<in> set (boxes (commitBest i bb s))" for c
  proof -
    from that have "c = (boxes s ! i)\<lparr>needRemove := True\<rparr> \<or> c \<in> set (boxes s)"
      using set_update_subset_insert [of "boxes s" i] by fastforce
    with inv i show ?thesis by (auto simp: extentInv_def)
  qed
  from a b show ?thesis
    unfolding extentInv_def by simp
qed

lemma extentInv_prepare: "extentInv (prepare s)"
proof -
  have "\<forall>c \<in> set (boxes (prepare s)). 0 < width c \<and> 0 < height c"
    by (auto simp: isBad_def)
  then show ?thesis
    by (auto simp: extentInv_def coherent_def createFromCoord_def newBox_def)
qed

lemma extentInv_packLoop: "extentInv s \<Longrightarrow> extentInv (packLoop s tb)"
  by (rule packLoop_invariant) (auto intro: extentInv_commitBest scanBoxes_selected)

lemma extentInv_collectNotPlaced: "extentInv (collectNotPlaced t) = extentInv t"
  by (simp add: extentInv_def unmarked_def)

lemma extentInv_pack:
  assumes "extentInv s \<or> \<not> isPrepared s"
  shows "extentInv (snd (pack s))"
proof (cases "isPrepared s")
  case True
  with assms have "extentInv s" by simp
  then have "extentInv (packLoop s (newBox 0 0 0 0 0 0 0 0))"
    by (rule extentInv_packLoop)
  with True show ?thesis
    by (simp add: pack_def Let_def extentInv_collectNotPlaced)
next
  case False
  have "extentInv (packLoop (prepare s) (newBox 0 0 0 0 0 0 0 0))"
    using extentInv_prepare by (rule extentInv_packLoop)
  with False show ?thesis
    by (simp add: pack_def Let_def extentInv_collectNotPlaced)
qed

end
